theory Spec2Isabelle
  imports Main "HOL-Library.AList" "HOL-Library.Multiset"
begin

section \<open>Values, errors and panics\<close>

text \<open>
  A stored object is a Go \<^verbatim>\<open>interface{}\<close>: \<open>None\<close> is \<^verbatim>\<open>nil\<close>, \<open>Some x\<close> a
  non-nil value of the object type \<open>'o\<close>.

  A Go \<^verbatim>\<open>error\<close> is a value of \<open>error\<close>: \<open>UserError\<close> is an error made by a
  caller-supplied key or index function, \<open>IndexerConflict\<close> the "indexer conflict"
  error of \<^verbatim>\<open>addIndexer\<close>/\<^verbatim>\<open>addIndexers\<close> (with the conflicting names),
  \<open>IndexNotExist\<close> the "index with name ... does not exist" error of the queries,
  \<open>KeyError\<close> the facade's wrapper of a key function's error (the wrapped object is
  left out), \<open>NoItemsToEvict\<close> the facade's "no items to evict".

  A Go \<^verbatim>\<open>panic\<close> is a value of \<open>panic\<close>; a function that can panic returns
  \<open>panic + result\<close>, with \<open>Inl\<close> for the panic, after which nothing else of the call
  runs.
\<close>

type_synonym 'o obj = "'o option"

datatype error =
    UserError string
  | IndexerConflict "string set"
  | IndexNotExist string
  | KeyError error
  | NoItemsToEvict

datatype panic =
    PanicIndexerMissing string
  | PanicIndexFunc string error

type_synonym ('k, 'o) IndexFunc = "'o obj \<Rightarrow> error + 'k list"

type_synonym ('t, 'o) KeyFunc = "'o obj \<Rightarrow> error + 't"

section \<open>The index engine (storeIndex)\<close>

text \<open>
  \<^verbatim>\<open>Indexers\<close> and the store's \<^verbatim>\<open>items\<close> are Go maps that the code iterates; they are
  association lists, read with \<open>map_of\<close> and written with \<open>AList.update\<close> and
  \<open>AList.delete\<close>, and the order of the list stands for the iteration order, which
  Go leaves open. \<^verbatim>\<open>Indexes\<close> and \<^verbatim>\<open>Index\<close> are only looked up and updated: they are
  maps. A bucket (\<^verbatim>\<open>sets.Set[T]\<close>) is a set of keys; a bucket that is \<^verbatim>\<open>nil\<close> and a
  bucket that is not in the map read the same everywhere in the code, and both are
  \<open>None\<close>.
\<close>

type_synonym ('k, 't) Index = "'k \<rightharpoonup> 't set"

record ('k, 't, 'o) storeIndex =
  indexers :: "(string \<times> ('k, 'o) IndexFunc) list"
  indices :: "string \<rightharpoonup> ('k, 't) Index"

definition reset :: "('k, 't, 'o) storeIndex \<Rightarrow> ('k, 't, 'o) storeIndex" where
  "reset si = si\<lparr>indices := Map.empty\<rparr>"

definition getKeysByIndex ::
  "('k, 't, 'o) storeIndex \<Rightarrow> string \<Rightarrow> 'k \<Rightarrow> error + 't set option" where
  "getKeysByIndex si indexName indexedValue =
     (case map_of (indexers si) indexName of
        None \<Rightarrow> Inl (IndexNotExist indexName)
      | Some _ \<Rightarrow>
          (case indices si indexName of
             None \<Rightarrow> Inr None
           | Some index \<Rightarrow> Inr (index indexedValue)))"

text \<open>
  \<^verbatim>\<open>addIndexer\<close> and \<^verbatim>\<open>addIndexers\<close> return the error (if any) together with the
  storeIndex they leave behind.
\<close>

definition addIndexer ::
  "string \<Rightarrow> ('k, 'o) IndexFunc \<Rightarrow> ('k, 't, 'o) storeIndex
     \<Rightarrow> error option \<times> ('k, 't, 'o) storeIndex" where
  "addIndexer indexName indexFunc si =
     (if map_of (indexers si) indexName \<noteq> None
      then (Some (IndexerConflict {indexName}), si)
      else (None, si\<lparr>indexers := AList.update indexName indexFunc (indexers si)\<rparr>))"

definition addIndexers ::
  "(string \<times> ('k, 'o) IndexFunc) list \<Rightarrow> ('k, 't, 'o) storeIndex
     \<Rightarrow> error option \<times> ('k, 't, 'o) storeIndex" where
  "addIndexers newIndexers si =
     (let existingKeys = set (map fst (indexers si));
          newKeys = map fst newIndexers
      in if list_ex (\<lambda>n. n \<in> existingKeys) newKeys
         then (Some (IndexerConflict (existingKeys \<inter> set newKeys)), si)
         else (None,
               si\<lparr>indexers := fold (\<lambda>(name, indexer). AList.update name indexer)
                                 newIndexers (indexers si)\<rparr>))"

text \<open>
  The loop over \<^verbatim>\<open>oldIndexValues\<close> of \<^verbatim>\<open>updateSingleIndex\<close>. Its body returns from
  the whole function when the value's bucket is \<^verbatim>\<open>nil\<close>; the flag of the result
  says whether that happened.
\<close>

fun deleteOldValues :: "'t \<Rightarrow> 'k list \<Rightarrow> ('k, 't) Index \<Rightarrow> ('k, 't) Index \<times> bool" where
  "deleteOldValues key [] index = (index, False)"
| "deleteOldValues key (indexValue # rest) index =
     (case index indexValue of
        None \<Rightarrow> (index, True)
      | Some keySet \<Rightarrow>
          (let keySet' = keySet - {key}
           in deleteOldValues key rest
                (if keySet' = {} then index(indexValue := None)
                 else index(indexValue \<mapsto> keySet'))))"

text \<open>The loop over \<^verbatim>\<open>newIndexValues\<close>.\<close>

fun insertNewValues :: "'t \<Rightarrow> 'k list \<Rightarrow> ('k, 't) Index \<Rightarrow> ('k, 't) Index" where
  "insertNewValues key [] index = index"
| "insertNewValues key (indexValue # rest) index =
     insertNewValues key rest
       (index(indexValue \<mapsto>
          insert key (case index indexValue of None \<Rightarrow> {} | Some keySet \<Rightarrow> keySet)))"

definition indexValuesOf ::
  "string \<Rightarrow> ('k, 'o) IndexFunc \<Rightarrow> 'o obj \<Rightarrow> panic + 'k list" where
  "indexValuesOf name indexFunc obj =
     (if obj \<noteq> None
      then (case indexFunc obj of
              Inl err \<Rightarrow> Inl (PanicIndexFunc name err)
            | Inr indexValues \<Rightarrow> Inr indexValues)
      else Inr [])"

definition updateSingleIndex ::
  "string \<Rightarrow> 'o obj \<Rightarrow> 'o obj \<Rightarrow> 't \<Rightarrow> ('k, 't, 'o) storeIndex
     \<Rightarrow> panic + ('k, 't, 'o) storeIndex" where
  "updateSingleIndex name oldObj newObj key si =
     (case map_of (indexers si) name of
        None \<Rightarrow> Inl (PanicIndexerMissing name)
      | Some indexFunc \<Rightarrow>
          (case indexValuesOf name indexFunc oldObj of
             Inl p \<Rightarrow> Inl p
           | Inr oldIndexValues \<Rightarrow>
               (case indexValuesOf name indexFunc newObj of
                  Inl p \<Rightarrow> Inl p
                | Inr newIndexValues \<Rightarrow>
                    (let index = (case indices si name of
                                    None \<Rightarrow> Map.empty
                                  | Some index \<Rightarrow> index)
                     in if length newIndexValues = 1 \<and> length oldIndexValues = 1
                           \<and> hd newIndexValues = hd oldIndexValues
                        then Inr (si\<lparr>indices := (indices si)(name \<mapsto> index)\<rparr>)
                        else (case deleteOldValues key oldIndexValues index of
                                (index', True) \<Rightarrow>
                                  Inr (si\<lparr>indices := (indices si)(name \<mapsto> index')\<rparr>)
                              | (index', False) \<Rightarrow>
                                  Inr (si\<lparr>indices := (indices si)
                                         (name \<mapsto> insertNewValues key newIndexValues index')\<rparr>))))))"

fun updateIndicesLoop ::
  "string list \<Rightarrow> 'o obj \<Rightarrow> 'o obj \<Rightarrow> 't \<Rightarrow> ('k, 't, 'o) storeIndex
     \<Rightarrow> panic + ('k, 't, 'o) storeIndex" where
  "updateIndicesLoop [] oldObj newObj key si = Inr si"
| "updateIndicesLoop (name # names) oldObj newObj key si =
     (case updateSingleIndex name oldObj newObj key si of
        Inl p \<Rightarrow> Inl p
      | Inr si' \<Rightarrow> updateIndicesLoop names oldObj newObj key si')"

definition updateIndices ::
  "'o obj \<Rightarrow> 'o obj \<Rightarrow> 't \<Rightarrow> ('k, 't, 'o) storeIndex \<Rightarrow> panic + ('k, 't, 'o) storeIndex" where
  "updateIndices oldObj newObj key si =
     updateIndicesLoop (map fst (indexers si)) oldObj newObj key si"

section \<open>The thread-safe store (threadSafeMap)\<close>

text \<open>
  Every method holds the store's lock from its first statement to its last, so a call
  is one step on the store. A method that can panic (through \<^verbatim>\<open>updateSingleIndex\<close>)
  returns \<open>panic + store\<close>. \<^verbatim>\<open>items\<close> is a Go map: its list has each key once, which
  \<open>AList.update\<close> and \<open>AList.delete\<close> keep, and the argument of \<^verbatim>\<open>Replace\<close> is such a
  list. \<^verbatim>\<open>IndexKeys\<close> is modelled without its \<^verbatim>\<open>lessFunc\<close>: it returns the bucket's
  keys as a set, where the code returns them as a slice in some order.
\<close>

record ('k, 't, 'o) threadSafeMap =
  items :: "('t \<times> 'o obj) list"
  index :: "('k, 't, 'o) storeIndex"

definition NewThreadSafeStore ::
  "(string \<times> ('k, 'o) IndexFunc) list \<Rightarrow> (string \<rightharpoonup> ('k, 't) Index)
     \<Rightarrow> ('k, 't, 'o) threadSafeMap" where
  "NewThreadSafeStore ixrs ixs = \<lparr>items = [], index = \<lparr>indexers = ixrs, indices = ixs\<rparr>\<rparr>"

definition threadSafeMap_Update ::
  "'t \<Rightarrow> 'o obj \<Rightarrow> ('k, 't, 'o) threadSafeMap \<Rightarrow> panic + ('k, 't, 'o) threadSafeMap" where
  "threadSafeMap_Update key obj tsm =
     (let oldObject = (case map_of (items tsm) key of None \<Rightarrow> None | Some x \<Rightarrow> x);
          items' = AList.update key obj (items tsm)
      in case updateIndices oldObject obj key (index tsm) of
           Inl p \<Rightarrow> Inl p
         | Inr si \<Rightarrow> Inr \<lparr>items = items', index = si\<rparr>)"

definition threadSafeMap_Add ::
  "'t \<Rightarrow> 'o obj \<Rightarrow> ('k, 't, 'o) threadSafeMap \<Rightarrow> panic + ('k, 't, 'o) threadSafeMap" where
  "threadSafeMap_Add key obj tsm = threadSafeMap_Update key obj tsm"

definition threadSafeMap_Delete ::
  "'t \<Rightarrow> ('k, 't, 'o) threadSafeMap \<Rightarrow> panic + ('k, 't, 'o) threadSafeMap" where
  "threadSafeMap_Delete key tsm =
     (case map_of (items tsm) key of
        Some obj \<Rightarrow>
          (case updateIndices obj None key (index tsm) of
             Inl p \<Rightarrow> Inl p
           | Inr si \<Rightarrow> Inr \<lparr>items = AList.delete key (items tsm), index = si\<rparr>)
      | None \<Rightarrow> Inr tsm)"

definition threadSafeMap_Get :: "'t \<Rightarrow> ('k, 't, 'o) threadSafeMap \<Rightarrow> 'o obj \<times> bool" where
  "threadSafeMap_Get key tsm = (case map_of (items tsm) key of None \<Rightarrow> (None, False) | Some x \<Rightarrow> (x, True))"

definition threadSafeMap_Size :: "('k, 't, 'o) threadSafeMap \<Rightarrow> int" where
  "threadSafeMap_Size tsm = int (length (items tsm))"

fun reindexAll ::
  "('t \<times> 'o obj) list \<Rightarrow> ('k, 't, 'o) storeIndex \<Rightarrow> panic + ('k, 't, 'o) storeIndex" where
  "reindexAll [] si = Inr si"
| "reindexAll ((key, item) # rest) si =
     (case updateIndices None item key si of
        Inl p \<Rightarrow> Inl p
      | Inr si' \<Rightarrow> reindexAll rest si')"

definition threadSafeMap_Replace ::
  "('t \<times> 'o obj) list \<Rightarrow> ('k, 't, 'o) threadSafeMap \<Rightarrow> panic + ('k, 't, 'o) threadSafeMap" where
  "threadSafeMap_Replace newItems tsm =
     (case reindexAll newItems (reset (index tsm)) of
        Inl p \<Rightarrow> Inl p
      | Inr si \<Rightarrow> Inr \<lparr>items = newItems, index = si\<rparr>)"

definition threadSafeMap_IndexKeys ::
  "string \<Rightarrow> 'k \<Rightarrow> ('k, 't, 'o) threadSafeMap \<Rightarrow> error + 't set" where
  "threadSafeMap_IndexKeys indexName indexedValue tsm =
     (case getKeysByIndex (index tsm) indexName indexedValue of
        Inl err \<Rightarrow> Inl err
      | Inr None \<Rightarrow> Inr {}
      | Inr (Some keySet) \<Rightarrow> Inr keySet)"

text \<open>
  The back-fill loops of \<^verbatim>\<open>AddIndexer\<close> and \<^verbatim>\<open>AddIndexers\<close>: every stored item is
  indexed under the new name(s) with \<^verbatim>\<open>updateSingleIndex(name, nil, item, key)\<close>.
\<close>

fun backfillNames ::
  "string list \<Rightarrow> 'o obj \<Rightarrow> 't \<Rightarrow> ('k, 't, 'o) storeIndex \<Rightarrow> panic + ('k, 't, 'o) storeIndex" where
  "backfillNames [] item key si = Inr si"
| "backfillNames (name # names) item key si =
     (case updateSingleIndex name None item key si of
        Inl p \<Rightarrow> Inl p
      | Inr si' \<Rightarrow> backfillNames names item key si')"

fun backfill ::
  "string list \<Rightarrow> ('t \<times> 'o obj) list \<Rightarrow> ('k, 't, 'o) storeIndex
     \<Rightarrow> panic + ('k, 't, 'o) storeIndex" where
  "backfill names [] si = Inr si"
| "backfill names ((key, item) # rest) si =
     (case backfillNames names item key si of
        Inl p \<Rightarrow> Inl p
      | Inr si' \<Rightarrow> backfill names rest si')"

text \<open>
  \<^verbatim>\<open>AddIndexers\<close> and \<^verbatim>\<open>AddIndexer\<close> either panic, or return the error (if any)
  together with the store they leave behind.
\<close>

definition threadSafeMap_AddIndexers ::
  "(string \<times> ('k, 'o) IndexFunc) list \<Rightarrow> ('k, 't, 'o) threadSafeMap
     \<Rightarrow> panic + (error option \<times> ('k, 't, 'o) threadSafeMap)" where
  "threadSafeMap_AddIndexers newIndexers tsm =
     (case addIndexers newIndexers (index tsm) of
        (Some err, si) \<Rightarrow> Inr (Some err, tsm\<lparr>index := si\<rparr>)
      | (None, si) \<Rightarrow>
          (case backfill (map fst newIndexers) (items tsm) si of
             Inl p \<Rightarrow> Inl p
           | Inr si' \<Rightarrow> Inr (None, tsm\<lparr>index := si'\<rparr>)))"

definition threadSafeMap_AddIndexer ::
  "string \<Rightarrow> ('k, 'o) IndexFunc \<Rightarrow> ('k, 't, 'o) threadSafeMap
     \<Rightarrow> panic + (error option \<times> ('k, 't, 'o) threadSafeMap)" where
  "threadSafeMap_AddIndexer indexName indexFunc tsm =
     (case addIndexer indexName indexFunc (index tsm) of
        (Some err, si) \<Rightarrow> Inr (Some err, tsm\<lparr>index := si\<rparr>)
      | (None, si) \<Rightarrow>
          (case backfill [indexName] (items tsm) si of
             Inl p \<Rightarrow> Inl p
           | Inr si' \<Rightarrow> Inr (None, tsm\<lparr>index := si'\<rparr>)))"

section \<open>Eviction policies\<close>

text \<open>
  A policy's \<^verbatim>\<open>Put\<close> and \<^verbatim>\<open>Evict\<close> return a Go pair \<^verbatim>\<open>(T, bool)\<close> and change the
  policy: the model returns the pair together with the new policy. The zero value of
  the key type is \<open>0\<close>. Every method holds the policy's lock throughout, so a call is
  one step. \<^verbatim>\<open>capacity\<close> is a Go \<^verbatim>\<open>int\<close> that is only compared: an \<open>int\<close>.

  In FIFO and lru, \<^verbatim>\<open>cache\<close> maps a tracked key to its element of \<^verbatim>\<open>list\<close>, and the
  element holds the key. The model keeps the set of keys of \<^verbatim>\<open>cache\<close> and the keys of
  the list's elements from front to back; removing the element that \<^verbatim>\<open>cache\<close> gives
  for a key removes the key's occurrence in the list (\<open>FIFO_inv\<close> and \<open>lru_inv\<close> say
  that there is exactly one, and every method keeps them).
\<close>

record 't FIFO =
  fifo_capacity :: int
  fifo_cache :: "'t set"
  fifo_list :: "'t list"

definition NewFIFO :: "int \<Rightarrow> 't FIFO" where
  "NewFIFO capacity = \<lparr>fifo_capacity = capacity, fifo_cache = {}, fifo_list = []\<rparr>"

definition FIFO_evict :: "'t::zero FIFO \<Rightarrow> ('t \<times> bool) \<times> 't FIFO" where
  "FIFO_evict f =
     (case fifo_list f of
        [] \<Rightarrow> ((0, False), f)
      | k # rest \<Rightarrow> ((k, True), f\<lparr>fifo_list := rest, fifo_cache := fifo_cache f - {k}\<rparr>))"

definition FIFO_Put :: "'t::zero \<Rightarrow> 't FIFO \<Rightarrow> ('t \<times> bool) \<times> 't FIFO" where
  "FIFO_Put key f =
     (if key \<in> fifo_cache f then ((0, False), f)
      else (case (if int (length (fifo_list f)) \<ge> fifo_capacity f
                  then FIFO_evict f else ((0, False), f)) of
              ((evictedKey, evicted), f') \<Rightarrow>
                ((evictedKey, evicted),
                 f'\<lparr>fifo_list := fifo_list f' @ [key],
                    fifo_cache := insert key (fifo_cache f')\<rparr>)))"

definition FIFO_Delete :: "'t \<Rightarrow> 't FIFO \<Rightarrow> 't FIFO" where
  "FIFO_Delete key f =
     (if key \<in> fifo_cache f
      then f\<lparr>fifo_list := remove1 key (fifo_list f), fifo_cache := fifo_cache f - {key}\<rparr>
      else f)"

definition FIFO_Evict :: "'t::zero FIFO \<Rightarrow> ('t \<times> bool) \<times> 't FIFO" where
  "FIFO_Evict f = FIFO_evict f"

definition FIFO_Reset :: "'t FIFO \<Rightarrow> 't FIFO" where
  "FIFO_Reset f = f\<lparr>fifo_cache := {}, fifo_list := []\<rparr>"

definition FIFO_Size :: "'t FIFO \<Rightarrow> int" where
  "FIFO_Size f = int (card (fifo_cache f))"

definition FIFO_inv :: "'t FIFO \<Rightarrow> bool" where
  "FIFO_inv f = (set (fifo_list f) = fifo_cache f \<and> distinct (fifo_list f))"

text \<open>lru: the front of the list is the most recently used key.\<close>

record 't lru =
  lru_capacity :: int
  lru_cache :: "'t set"
  lru_list :: "'t list"

definition NewLRU :: "int \<Rightarrow> 't lru" where
  "NewLRU capacity = \<lparr>lru_capacity = capacity, lru_cache = {}, lru_list = []\<rparr>"

definition lru_evict :: "'t::zero lru \<Rightarrow> ('t \<times> bool) \<times> 't lru" where
  "lru_evict l =
     (if lru_list l = [] then ((0, False), l)
      else (let k = last (lru_list l)
            in ((k, True), l\<lparr>lru_list := butlast (lru_list l), lru_cache := lru_cache l - {k}\<rparr>)))"

definition lru_Put :: "'t::zero \<Rightarrow> 't lru \<Rightarrow> ('t \<times> bool) \<times> 't lru" where
  "lru_Put key l =
     (if key \<in> lru_cache l
      then ((0, False), l\<lparr>lru_list := key # remove1 key (lru_list l)\<rparr>)
      else (case (if int (length (lru_list l)) \<ge> lru_capacity l
                  then lru_evict l else ((0, False), l)) of
              ((evictedKey, evicted), l') \<Rightarrow>
                ((evictedKey, evicted),
                 l'\<lparr>lru_list := key # lru_list l',
                    lru_cache := insert key (lru_cache l')\<rparr>)))"

definition lru_Delete :: "'t \<Rightarrow> 't lru \<Rightarrow> 't lru" where
  "lru_Delete key l =
     (if key \<in> lru_cache l
      then l\<lparr>lru_list := remove1 key (lru_list l), lru_cache := lru_cache l - {key}\<rparr>
      else l)"

definition lru_Evict :: "'t::zero lru \<Rightarrow> ('t \<times> bool) \<times> 't lru" where
  "lru_Evict l = lru_evict l"

definition lru_Reset :: "'t lru \<Rightarrow> 't lru" where
  "lru_Reset l = l\<lparr>lru_cache := {}, lru_list := []\<rparr>"

definition lru_Size :: "'t lru \<Rightarrow> int" where
  "lru_Size l = int (card (lru_cache l))"

definition lru_inv :: "'t lru \<Rightarrow> bool" where
  "lru_inv l = (set (lru_list l) = lru_cache l \<and> distinct (lru_list l))"

subsection \<open>LFU and its heap\<close>

text \<open>
  An \<^verbatim>\<open>lfuEntry\<close> is shared by \<^verbatim>\<open>cache\<close> and \<^verbatim>\<open>freqHeap\<close> through pointers. The model
  keeps the entries in the heap (a list, the root first) and the set of keys of
  \<^verbatim>\<open>cache\<close>; the entry that \<^verbatim>\<open>cache\<close> gives for a key is the heap's entry with that
  key (\<open>LFU_inv\<close> says that there is exactly one, and every method keeps it).
  \<^verbatim>\<open>frequency\<close> is a Go \<^verbatim>\<open>int\<close> that is incremented: an \<open>int\<close> that wraps around as a
  64-bit signed integer does (\<open>wrapInt\<close>; Go's \<^verbatim>\<open>int\<close> has 64 bits on a 64-bit
  platform). \<^verbatim>\<open>index\<close> is an index into the heap: a
  \<open>nat\<close>.
\<close>

record 't lfuEntry =
  entryKey :: 't
  frequency :: int
  heapIndex :: nat

definition wrapInt :: "int \<Rightarrow> int" where
  "wrapInt x = (x + 2 ^ 63) mod 2 ^ 64 - 2 ^ 63"

definition lfuHeap_Less :: "'t lfuEntry list \<Rightarrow> nat \<Rightarrow> nat \<Rightarrow> bool" where
  "lfuHeap_Less h i j = (frequency (h ! i) < frequency (h ! j))"

definition lfuHeap_Swap :: "'t lfuEntry list \<Rightarrow> nat \<Rightarrow> nat \<Rightarrow> 't lfuEntry list" where
  "lfuHeap_Swap h i j =
     (let a = h ! i; b = h ! j
      in h[i := b\<lparr>heapIndex := i\<rparr>, j := a\<lparr>heapIndex := j\<rparr>])"

definition lfuHeap_Push :: "'t lfuEntry list \<Rightarrow> 't lfuEntry \<Rightarrow> 't lfuEntry list" where
  "lfuHeap_Push h entry = h @ [entry\<lparr>heapIndex := length h\<rparr>]"

definition lfuHeap_Pop :: "'t lfuEntry list \<Rightarrow> 't lfuEntry list \<times> 't lfuEntry" where
  "lfuHeap_Pop h = (butlast h, last h)"

text \<open>
  The functions of Go's standard package \<^verbatim>\<open>container/heap\<close> that LFU calls
  (\<^verbatim>\<open>up\<close>, \<^verbatim>\<open>down\<close>, \<^verbatim>\<open>Push\<close>, \<^verbatim>\<open>Pop\<close>, \<^verbatim>\<open>Remove\<close>, \<^verbatim>\<open>Fix\<close>), over the heap
  interface that \<^verbatim>\<open>lfuHeap\<close> implements. \<^verbatim>\<open>down\<close> returns the heap and whether the
  element moved. The loops read the slice only below the bound they are given, and
  \<^verbatim>\<open>up\<close> only at and above the root; started at a position of the heap they never
  read out of range, where Go would panic. LFU starts them at the \<^verbatim>\<open>index\<close> of an
  entry of the heap, which is its position (\<open>cacheEntry_pos\<close>).
\<close>

function heap_up :: "'t lfuEntry list \<Rightarrow> nat \<Rightarrow> 't lfuEntry list" where
  "heap_up h j =
     (let i = (j - 1) div 2
      in if i = j \<or> \<not> lfuHeap_Less h j i then h
         else heap_up (lfuHeap_Swap h i j) i)"
  by pat_completeness auto
termination
  by (relation "measure (\<lambda>(h, j). j)") auto

function heap_down_loop :: "'t lfuEntry list \<Rightarrow> nat \<Rightarrow> nat \<Rightarrow> 't lfuEntry list \<times> nat" where
  "heap_down_loop h i n =
     (let j1 = 2 * i + 1
      in if j1 \<ge> n then (h, i)
         else (let j = (if j1 + 1 < n \<and> lfuHeap_Less h (j1 + 1) j1 then j1 + 1 else j1)
               in if \<not> lfuHeap_Less h j i then (h, i)
                  else heap_down_loop (lfuHeap_Swap h i j) j n))"
  by pat_completeness auto
termination
  by (relation "measure (\<lambda>(h, i, n). n - i)") (auto simp: Let_def split: if_splits)

definition heap_down :: "'t lfuEntry list \<Rightarrow> nat \<Rightarrow> nat \<Rightarrow> 't lfuEntry list \<times> bool" where
  "heap_down h i0 n = (case heap_down_loop h i0 n of (h', i) \<Rightarrow> (h', i > i0))"

definition heap_Fix :: "'t lfuEntry list \<Rightarrow> nat \<Rightarrow> 't lfuEntry list" where
  "heap_Fix h i =
     (case heap_down h i (length h) of
        (h', True) \<Rightarrow> h'
      | (h', False) \<Rightarrow> heap_up h' i)"

definition heap_Push :: "'t lfuEntry list \<Rightarrow> 't lfuEntry \<Rightarrow> 't lfuEntry list" where
  "heap_Push h x = (let h' = lfuHeap_Push h x in heap_up h' (length h' - 1))"

definition heap_Pop :: "'t lfuEntry list \<Rightarrow> 't lfuEntry list \<times> 't lfuEntry" where
  "heap_Pop h =
     (let n = length h - 1;
          h1 = lfuHeap_Swap h 0 n
      in lfuHeap_Pop (fst (heap_down h1 0 n)))"

definition heap_Remove :: "'t lfuEntry list \<Rightarrow> nat \<Rightarrow> 't lfuEntry list \<times> 't lfuEntry" where
  "heap_Remove h i =
     (let n = length h - 1
      in lfuHeap_Pop
           (if n \<noteq> i
            then (case heap_down (lfuHeap_Swap h i n) i n of
                    (h', True) \<Rightarrow> h'
                  | (h', False) \<Rightarrow> heap_up h' i)
            else h))"

record 't LFU =
  lfu_capacity :: int
  lfu_cache :: "'t set"
  freqHeap :: "'t lfuEntry list"

definition NewLFU :: "int \<Rightarrow> 't LFU" where
  "NewLFU capacity = \<lparr>lfu_capacity = capacity, lfu_cache = {}, freqHeap = []\<rparr>"

text \<open>
  \<open>cacheEntry\<close> reads \<^verbatim>\<open>l.cache[key]\<close> for a tracked key, \<open>incrementFrequency\<close> is
  \<^verbatim>\<open>entry.frequency++\<close> on that entry, seen in the heap.
\<close>

definition cacheEntry :: "'t lfuEntry list \<Rightarrow> 't \<Rightarrow> 't lfuEntry option" where
  "cacheEntry h key = find (\<lambda>e. entryKey e = key) h"

fun incrementFrequency :: "'t \<Rightarrow> 't lfuEntry list \<Rightarrow> 't lfuEntry list" where
  "incrementFrequency key [] = []"
| "incrementFrequency key (e # es) =
     (if entryKey e = key then e\<lparr>frequency := wrapInt (frequency e + 1)\<rparr> # es
      else e # incrementFrequency key es)"

definition LFU_evict :: "'t::zero LFU \<Rightarrow> ('t \<times> bool) \<times> 't LFU" where
  "LFU_evict l =
     (if length (freqHeap l) = 0 then ((0, False), l)
      else (case heap_Pop (freqHeap l) of
              (h', entry) \<Rightarrow>
                ((entryKey entry, True),
                 l\<lparr>freqHeap := h', lfu_cache := lfu_cache l - {entryKey entry}\<rparr>)))"

definition LFU_Put :: "'t::zero \<Rightarrow> 't LFU \<Rightarrow> ('t \<times> bool) \<times> 't LFU" where
  "LFU_Put key l =
     (if key \<in> lfu_cache l
      then (case cacheEntry (freqHeap l) key of
              Some entry \<Rightarrow>
                ((0, False),
                 l\<lparr>freqHeap := heap_Fix (incrementFrequency key (freqHeap l)) (heapIndex entry)\<rparr>)
            | None \<Rightarrow> ((0, False), l))
      else (case (if int (card (lfu_cache l)) \<ge> lfu_capacity l
                  then LFU_evict l else ((0, False), l)) of
              ((evictedKey, evicted), l') \<Rightarrow>
                ((evictedKey, evicted),
                 l'\<lparr>freqHeap := heap_Push (freqHeap l')
                                 \<lparr>entryKey = key, frequency = 1, heapIndex = 0\<rparr>,
                    lfu_cache := insert key (lfu_cache l')\<rparr>)))"

definition LFU_Delete :: "'t \<Rightarrow> 't LFU \<Rightarrow> 't LFU" where
  "LFU_Delete key l =
     (if key \<in> lfu_cache l
      then (case cacheEntry (freqHeap l) key of
              Some entry \<Rightarrow>
                l\<lparr>freqHeap := fst (heap_Remove (freqHeap l) (heapIndex entry)),
                  lfu_cache := lfu_cache l - {key}\<rparr>
            | None \<Rightarrow> l)
      else l)"

definition LFU_Evict :: "'t::zero LFU \<Rightarrow> ('t \<times> bool) \<times> 't LFU" where
  "LFU_Evict l = LFU_evict l"

definition LFU_Reset :: "'t LFU \<Rightarrow> 't LFU" where
  "LFU_Reset l = l\<lparr>lfu_cache := {}, freqHeap := []\<rparr>"

definition LFU_Size :: "'t LFU \<Rightarrow> int" where
  "LFU_Size l = int (card (lfu_cache l))"

text \<open>
  \<open>heap_ordered\<close>: no entry is less frequent than its parent. \<open>LFU_inv\<close>: the heap
  holds one entry for each key of \<^verbatim>\<open>cache\<close>, each entry's \<^verbatim>\<open>index\<close> is its position,
  and the heap is ordered.
\<close>

definition heap_ordered :: "'t lfuEntry list \<Rightarrow> bool" where
  "heap_ordered h =
     list_all (\<lambda>c. frequency (h ! ((c - 1) div 2)) \<le> frequency (h ! c)) [1..<length h]"

definition indices_ok :: "'t lfuEntry list \<Rightarrow> bool" where
  "indices_ok h = (map heapIndex h = [0..<length h])"

definition LFU_inv :: "'t LFU \<Rightarrow> bool" where
  "LFU_inv l =
     (set (map entryKey (freqHeap l)) = lfu_cache l \<and> distinct (map entryKey (freqHeap l))
      \<and> indices_ok (freqHeap l) \<and> heap_ordered (freqHeap l))"

text \<open>The frequency counter of a key, read as \<^verbatim>\<open>l.cache[key].frequency\<close>.\<close>

definition LFU_frequency :: "'t LFU \<Rightarrow> 't \<Rightarrow> int option" where
  "LFU_frequency l key = map_option frequency (cacheEntry (freqHeap l) key)"

subsection \<open>Notions for the proofs about the heap\<close>

text \<open>
  \<open>entryPair\<close> is what an entry holds apart from its position. \<open>ord_n h n\<close> says that
  the first \<open>n\<close> entries are ordered as a heap, \<open>ord_except h n i\<close> that they are but
  for the entry at \<open>i\<close> (whose children are still no less frequent than its parent),
  \<open>children_ok h n i\<close> that the entry at \<open>i\<close> is no more frequent than its children.
  \<open>heap_fixup\<close> is the \<^verbatim>\<open>if !down(h, i, n) { up(h, i) }\<close> of \<^verbatim>\<open>Fix\<close> and \<^verbatim>\<open>Remove\<close>.
  \<open>heap_struct M n h0 h\<close> says that \<open>h\<close> holds the pairs \<open>M\<close>, every index is the
  position, and \<open>h\<close> agrees with \<open>h0\<close> from position \<open>n\<close> on.
\<close>

definition entryPair :: "'t lfuEntry \<Rightarrow> 't \<times> int" where
  "entryPair e = (entryKey e, frequency e)"

definition ord_n :: "'t lfuEntry list \<Rightarrow> nat \<Rightarrow> bool" where
  "ord_n h n = (\<forall>c. 0 < c \<and> c < n \<longrightarrow> frequency (h ! ((c - 1) div 2)) \<le> frequency (h ! c))"

definition ord_except :: "'t lfuEntry list \<Rightarrow> nat \<Rightarrow> nat \<Rightarrow> bool" where
  "ord_except h n i =
     ((\<forall>c. 0 < c \<and> c < n \<and> c \<noteq> i \<and> (c - 1) div 2 \<noteq> i
           \<longrightarrow> frequency (h ! ((c - 1) div 2)) \<le> frequency (h ! c))
      \<and> (\<forall>c. 0 < c \<and> c < n \<and> (c - 1) div 2 = i \<and> 0 < i
           \<longrightarrow> frequency (h ! ((i - 1) div 2)) \<le> frequency (h ! c)))"

definition children_ok :: "'t lfuEntry list \<Rightarrow> nat \<Rightarrow> nat \<Rightarrow> bool" where
  "children_ok h n i =
     (\<forall>c. 0 < c \<and> c < n \<and> (c - 1) div 2 = i \<longrightarrow> frequency (h ! i) \<le> frequency (h ! c))"

definition heap_fixup :: "'t lfuEntry list \<Rightarrow> nat \<Rightarrow> nat \<Rightarrow> 't lfuEntry list" where
  "heap_fixup h i n =
     (case heap_down h i n of (h', True) \<Rightarrow> h' | (h', False) \<Rightarrow> heap_up h' i)"

definition heap_struct :: "('t \<times> int) multiset \<Rightarrow> nat \<Rightarrow> 't lfuEntry list \<Rightarrow> 't lfuEntry list \<Rightarrow> bool" where
  "heap_struct M n h0 h =
     (mset (map entryPair h) = M \<and> indices_ok h \<and> length h = length h0
      \<and> (\<forall>k. n \<le> k \<and> k < length h0 \<longrightarrow> h ! k = h0 ! k))"

subsection \<open>The Policy interface\<close>

datatype 't Policy = FIFOPolicy "'t FIFO" | LRUPolicy "'t lru" | LFUPolicy "'t LFU"

fun Policy_Put :: "'t::zero \<Rightarrow> 't Policy \<Rightarrow> ('t \<times> bool) \<times> 't Policy" where
  "Policy_Put key (FIFOPolicy f) = (case FIFO_Put key f of (r, f') \<Rightarrow> (r, FIFOPolicy f'))"
| "Policy_Put key (LRUPolicy l) = (case lru_Put key l of (r, l') \<Rightarrow> (r, LRUPolicy l'))"
| "Policy_Put key (LFUPolicy l) = (case LFU_Put key l of (r, l') \<Rightarrow> (r, LFUPolicy l'))"

fun Policy_Delete :: "'t \<Rightarrow> 't Policy \<Rightarrow> 't Policy" where
  "Policy_Delete key (FIFOPolicy f) = FIFOPolicy (FIFO_Delete key f)"
| "Policy_Delete key (LRUPolicy l) = LRUPolicy (lru_Delete key l)"
| "Policy_Delete key (LFUPolicy l) = LFUPolicy (LFU_Delete key l)"

fun Policy_Evict :: "'t::zero Policy \<Rightarrow> ('t \<times> bool) \<times> 't Policy" where
  "Policy_Evict (FIFOPolicy f) = (case FIFO_Evict f of (r, f') \<Rightarrow> (r, FIFOPolicy f'))"
| "Policy_Evict (LRUPolicy l) = (case lru_Evict l of (r, l') \<Rightarrow> (r, LRUPolicy l'))"
| "Policy_Evict (LFUPolicy l) = (case LFU_Evict l of (r, l') \<Rightarrow> (r, LFUPolicy l'))"

fun Policy_Reset :: "'t Policy \<Rightarrow> 't Policy" where
  "Policy_Reset (FIFOPolicy f) = FIFOPolicy (FIFO_Reset f)"
| "Policy_Reset (LRUPolicy l) = LRUPolicy (lru_Reset l)"
| "Policy_Reset (LFUPolicy l) = LFUPolicy (LFU_Reset l)"

fun Policy_Size :: "'t Policy \<Rightarrow> int" where
  "Policy_Size (FIFOPolicy f) = FIFO_Size f"
| "Policy_Size (LRUPolicy l) = lru_Size l"
| "Policy_Size (LFUPolicy l) = LFU_Size l"

fun Policy_capacity :: "'t Policy \<Rightarrow> int" where
  "Policy_capacity (FIFOPolicy f) = fifo_capacity f"
| "Policy_capacity (LRUPolicy l) = lru_capacity l"
| "Policy_capacity (LFUPolicy l) = lfu_capacity l"

fun Policy_keys :: "'t Policy \<Rightarrow> 't set" where
  "Policy_keys (FIFOPolicy f) = fifo_cache f"
| "Policy_keys (LRUPolicy l) = lru_cache l"
| "Policy_keys (LFUPolicy l) = lfu_cache l"

fun Policy_inv :: "'t Policy \<Rightarrow> bool" where
  "Policy_inv (FIFOPolicy f) = FIFO_inv f"
| "Policy_inv (LRUPolicy l) = lru_inv l"
| "Policy_inv (LFUPolicy l) = LFU_inv l"

section \<open>The eviction-backed facade (evictionCache)\<close>

text \<open>
  Every method that changes the cache holds the facade's lock across its calls to the
  policy and the store, so a call is one step. A method either panics (through the
  store), or returns its error (if any) together with the cache it leaves behind.
\<close>

record ('k, 't, 'o) evictionCache =
  store :: "('k, 't, 'o) threadSafeMap"
  keyFunc :: "('t, 'o) KeyFunc"
  evictionPolicy :: "'t Policy"

definition NewEvictionCache ::
  "('t, 'o) KeyFunc \<Rightarrow> 't Policy \<Rightarrow> (string \<times> ('k, 'o) IndexFunc) list
     \<Rightarrow> ('k, 't, 'o) evictionCache" where
  "NewEvictionCache kf policy ixrs =
     \<lparr>store = NewThreadSafeStore ixrs Map.empty, keyFunc = kf, evictionPolicy = policy\<rparr>"

definition evictionCache_Add ::
  "'o obj \<Rightarrow> ('k, 't::zero, 'o) evictionCache
     \<Rightarrow> panic + (error option \<times> ('k, 't, 'o) evictionCache)" where
  "evictionCache_Add obj c =
     (case keyFunc c obj of
        Inl err \<Rightarrow> Inr (Some (KeyError err), c)
      | Inr key \<Rightarrow>
          (case Policy_Put key (evictionPolicy c) of
             ((evictedKey, evicted), policy') \<Rightarrow>
               (case (if evicted then threadSafeMap_Delete evictedKey (store c)
                      else Inr (store c)) of
                  Inl p \<Rightarrow> Inl p
                | Inr store' \<Rightarrow>
                    (case threadSafeMap_Add key obj store' of
                       Inl p \<Rightarrow> Inl p
                     | Inr store'' \<Rightarrow>
                         Inr (None, c\<lparr>store := store'', evictionPolicy := policy'\<rparr>)))))"

definition evictionCache_Update ::
  "'o obj \<Rightarrow> ('k, 't::zero, 'o) evictionCache
     \<Rightarrow> panic + (error option \<times> ('k, 't, 'o) evictionCache)" where
  "evictionCache_Update obj c =
     (case keyFunc c obj of
        Inl err \<Rightarrow> Inr (Some (KeyError err), c)
      | Inr key \<Rightarrow>
          (case threadSafeMap_Update key obj (store c) of
             Inl p \<Rightarrow> Inl p
           | Inr store' \<Rightarrow>
               Inr (None, c\<lparr>store := store',
                             evictionPolicy := snd (Policy_Put key (evictionPolicy c))\<rparr>)))"

definition evictionCache_Delete ::
  "'o obj \<Rightarrow> ('k, 't, 'o) evictionCache
     \<Rightarrow> panic + (error option \<times> ('k, 't, 'o) evictionCache)" where
  "evictionCache_Delete obj c =
     (case keyFunc c obj of
        Inl err \<Rightarrow> Inr (Some (KeyError err), c)
      | Inr key \<Rightarrow>
          (let policy' = Policy_Delete key (evictionPolicy c)
           in case threadSafeMap_Delete key (store c) of
                Inl p \<Rightarrow> Inl p
              | Inr store' \<Rightarrow>
                  Inr (None, c\<lparr>store := store', evictionPolicy := policy'\<rparr>)))"


section \<open>Sequences of calls\<close>

text \<open>
  A caller's sequence of \<^verbatim>\<open>Add\<close>, \<^verbatim>\<open>Update\<close>, \<^verbatim>\<open>Delete\<close> and \<^verbatim>\<open>Replace\<close> calls on
  the thread-safe store; a panic ends it.
\<close>

datatype ('t, 'o) storeOp =
    OpAdd 't "'o obj"
  | OpUpdate 't "'o obj"
  | OpDelete 't
  | OpReplace "('t \<times> 'o obj) list"

fun applyOp ::
  "('t, 'o) storeOp \<Rightarrow> ('k, 't, 'o) threadSafeMap \<Rightarrow> panic + ('k, 't, 'o) threadSafeMap" where
  "applyOp (OpAdd key obj) tsm = threadSafeMap_Add key obj tsm"
| "applyOp (OpUpdate key obj) tsm = threadSafeMap_Update key obj tsm"
| "applyOp (OpDelete key) tsm = threadSafeMap_Delete key tsm"
| "applyOp (OpReplace newItems) tsm = threadSafeMap_Replace newItems tsm"

fun applyOps ::
  "('t, 'o) storeOp list \<Rightarrow> ('k, 't, 'o) threadSafeMap \<Rightarrow> panic + ('k, 't, 'o) threadSafeMap" where
  "applyOps [] tsm = Inr tsm"
| "applyOps (op # ops) tsm =
     (case applyOp op tsm of Inl p \<Rightarrow> Inl p | Inr tsm' \<Rightarrow> applyOps ops tsm')"

text \<open>
  A caller's sequence of \<^verbatim>\<open>Add\<close> and \<^verbatim>\<open>Delete\<close> calls on the eviction-backed
  facade. A call that returns an error (the key function failed) is followed by the
  next call; a panic ends the sequence.
\<close>

datatype 'o cacheOp = CallAdd "'o obj" | CallDelete "'o obj"

fun applyCacheOp ::
  "'o cacheOp \<Rightarrow> ('k, 't::zero, 'o) evictionCache
     \<Rightarrow> panic + (error option \<times> ('k, 't, 'o) evictionCache)" where
  "applyCacheOp (CallAdd obj) c = evictionCache_Add obj c"
| "applyCacheOp (CallDelete obj) c = evictionCache_Delete obj c"

fun applyCacheOps ::
  "'o cacheOp list \<Rightarrow> ('k, 't::zero, 'o) evictionCache \<Rightarrow> panic + ('k, 't, 'o) evictionCache" where
  "applyCacheOps [] c = Inr c"
| "applyCacheOps (op # ops) c =
     (case applyCacheOp op c of
        Inl p \<Rightarrow> Inl p
      | Inr (err, c') \<Rightarrow> applyCacheOps ops c')"

text \<open>
  \<open>cache_inv\<close>: the policy is well formed, and the store holds exactly the keys that
  the policy tracks, each once. \<open>emptyPolicy\<close>: a policy as its constructor returns
  it.
\<close>

definition cache_inv :: "('k, 't, 'o) evictionCache \<Rightarrow> bool" where
  "cache_inv c =
     (Policy_inv (evictionPolicy c) \<and> distinct (map fst (items (store c)))
      \<and> fst ` set (items (store c)) = Policy_keys (evictionPolicy c))"

definition emptyPolicy :: "'t Policy \<Rightarrow> bool" where
  "emptyPolicy p =
     (p = FIFOPolicy (NewFIFO (Policy_capacity p)) \<or> p = LRUPolicy (NewLRU (Policy_capacity p))
      \<or> p = LFUPolicy (NewLFU (Policy_capacity p)))"

text \<open>The policies that calls of the interface's methods make of a new policy.\<close>

inductive policy_reachable :: "'t::zero Policy \<Rightarrow> bool" where
  reach_New: "emptyPolicy p \<Longrightarrow> policy_reachable p"
| reach_Put: "policy_reachable p \<Longrightarrow> policy_reachable (snd (Policy_Put key p))"
| reach_Delete: "policy_reachable p \<Longrightarrow> policy_reachable (Policy_Delete key p)"
| reach_Evict: "policy_reachable p \<Longrightarrow> policy_reachable (snd (Policy_Evict p))"
| reach_Reset: "policy_reachable p \<Longrightarrow> policy_reachable (Policy_Reset p)"

section \<open>Example data\<close>

text \<open>
  Objects that are lists of tags, indexed by their tags (a multi-valued index
  function), and an index function that fails on every object.
\<close>

definition tagsIndexFunc :: "(nat, nat list) IndexFunc" where
  "tagsIndexFunc obj = (case obj of None \<Rightarrow> Inr [] | Some tags \<Rightarrow> Inr tags)"

definition failingIndexFunc :: "(nat, nat list) IndexFunc" where
  "failingIndexFunc obj = Inl (UserError ''object is not indexable'')"

definition tagStore :: "(nat, nat, nat list) threadSafeMap" where
  "tagStore = NewThreadSafeStore [(''tags'', tagsIndexFunc)] Map.empty"

text \<open>\<open>tagStore\<close> after \<^verbatim>\<open>Add(1, [7])\<close>.\<close>

definition taggedStore :: "(nat, nat, nat list) threadSafeMap" where
  "taggedStore =
     \<lparr>items = [(1, Some [7])],
      index = \<lparr>indexers = [(''tags'', tagsIndexFunc)],
               indices = [''tags'' \<mapsto> [7 \<mapsto> {1}]]\<rparr>\<rparr>"

text \<open>
  The facade's tests store integers under themselves as keys. \<open>fullFIFOCache\<close> is a
  facade over a FIFO policy of capacity 1 after \<^verbatim>\<open>Add(1)\<close>, \<open>updatedFIFOCache\<close> is what
  \<^verbatim>\<open>Update(2)\<close> makes of it, and \<open>lfuAfterPuts\<close> is an LFU policy of capacity 2 after
  \<^verbatim>\<open>Put(1)\<close>, \<^verbatim>\<open>Put(2)\<close>, \<^verbatim>\<open>Put(2)\<close>, \<^verbatim>\<open>Put(2)\<close>.
\<close>

definition intKeyFunc :: "(int, int) KeyFunc" where
  "intKeyFunc obj = (case obj of None \<Rightarrow> Inl (UserError ''no object'') | Some n \<Rightarrow> Inr n)"

definition fullFIFOCache :: "(int, int, int) evictionCache" where
  "fullFIFOCache =
     \<lparr>store = \<lparr>items = [(1, Some 1)], index = \<lparr>indexers = [], indices = Map.empty\<rparr>\<rparr>,
      keyFunc = intKeyFunc,
      evictionPolicy = FIFOPolicy \<lparr>fifo_capacity = 1, fifo_cache = {1}, fifo_list = [1]\<rparr>\<rparr>"

definition updatedFIFOCache :: "(int, int, int) evictionCache" where
  "updatedFIFOCache =
     \<lparr>store = \<lparr>items = [(1, Some 1), (2, Some 2)],
               index = \<lparr>indexers = [], indices = Map.empty\<rparr>\<rparr>,
      keyFunc = intKeyFunc,
      evictionPolicy = FIFOPolicy \<lparr>fifo_capacity = 1, fifo_cache = {2}, fifo_list = [2]\<rparr>\<rparr>"

definition lfuAfterPuts :: "int LFU" where
  "lfuAfterPuts =
     \<lparr>lfu_capacity = 2, lfu_cache = {1, 2},
      freqHeap = [\<lparr>entryKey = 1, frequency = 1, heapIndex = 0\<rparr>,
                  \<lparr>entryKey = 2, frequency = 3, heapIndex = 1\<rparr>]\<rparr>"

section \<open>Properties of the index engine and the store\<close>

subsection \<open>Index maintenance\<close>

text \<open>
  C1 (what the code does at one input). The claim says that \<^verbatim>\<open>updateSingleIndex\<close>
  processes every old value and inserts the key under every new value, also when an
  old value's bucket is missing. The loop over the old values returns from the whole
  function at a missing bucket. With old values \<open>[7, 7]\<close> and new values \<open>[8]\<close> for
  key \<open>1\<close>, the first \<open>7\<close> empties and deletes its bucket, the second \<open>7\<close> finds no
  bucket, and the function returns: the key is never inserted under \<open>8\<close>.
\<close>

theorem updateSingleIndex_returns_at_missing_bucket:
  "updateSingleIndex ''tags'' (Some [7, 7]) (Some [8]) (1::nat)
     \<lparr>indexers = [(''tags'', tagsIndexFunc)], indices = [''tags'' \<mapsto> [7 \<mapsto> {1}]]\<rparr>
   = Inr \<lparr>indexers = [(''tags'', tagsIndexFunc)], indices = [''tags'' \<mapsto> Map.empty]\<rparr>"
  by (simp add: updateSingleIndex_def indexValuesOf_def tagsIndexFunc_def)

text \<open>
  C2 (what the code does at two inputs). The claim says that after any sequence of
  \<^verbatim>\<open>Add\<close>, \<^verbatim>\<open>Update\<close>, \<^verbatim>\<open>Delete\<close> and \<^verbatim>\<open>Replace\<close> calls every index holds a stored
  key exactly under the values of its current object, with no stale entry. After
  \<^verbatim>\<open>Add(1, [7, 7])\<close> and \<^verbatim>\<open>Update(1, [8])\<close> the store holds \<open>[8]\<close> under key \<open>1\<close>, and
  the bucket of \<open>8\<close> does not hold key \<open>1\<close>. After \<^verbatim>\<open>Add(1, [7, 7, 9])\<close> and
  \<^verbatim>\<open>Delete(1)\<close> the store is empty, and the bucket of \<open>9\<close> still holds key \<open>1\<close>.
\<close>

theorem index_stale_after_duplicate_values:
  "map_sum id (\<lambda>tsm. (threadSafeMap_Get 1 tsm, threadSafeMap_IndexKeys ''tags'' 8 tsm))
     (applyOps [OpAdd 1 (Some [7, 7]), OpUpdate 1 (Some [8])] tagStore)
     = Inr ((Some [8], True), Inr {})
   \<and> map_sum id (\<lambda>tsm. (threadSafeMap_Get 1 tsm, threadSafeMap_IndexKeys ''tags'' 9 tsm))
     (applyOps [OpAdd 1 (Some [7, 7, 9]), OpDelete 1] tagStore)
     = Inr ((None, False), Inr {1})"
  by (simp add: tagStore_def NewThreadSafeStore_def threadSafeMap_Add_def
      threadSafeMap_Update_def threadSafeMap_Delete_def threadSafeMap_Get_def
      threadSafeMap_IndexKeys_def getKeysByIndex_def updateIndices_def
      updateSingleIndex_def indexValuesOf_def tagsIndexFunc_def)

subsection \<open>Registering indexers\<close>

lemma updateSingleIndex_indexers:
  "updateSingleIndex name oldObj newObj key si = Inr si' \<Longrightarrow> indexers si' = indexers si"
  by (auto simp: updateSingleIndex_def Let_def split: option.splits sum.splits if_splits prod.splits bool.splits)

lemma updateSingleIndex_new_fails:
  "map_of (indexers si) name = Some indexFunc \<Longrightarrow> indexFunc (Some x) = Inl e \<Longrightarrow>
     \<exists>p. updateSingleIndex name oldObj (Some x) key si = Inl p"
  by (auto simp: updateSingleIndex_def indexValuesOf_def split: sum.splits)

lemma backfillNames_indexers:
  "backfillNames names item key si = Inr si' \<Longrightarrow> indexers si' = indexers si"
  by (induction names arbitrary: si) (auto split: sum.splits dest: updateSingleIndex_indexers)

lemma backfillNames_fails:
  "name \<in> set names \<Longrightarrow> map_of (indexers si) name = Some indexFunc \<Longrightarrow>
   indexFunc (Some x) = Inl e \<Longrightarrow> \<exists>p. backfillNames names (Some x) key si = Inl p"
proof (induction names arbitrary: si)
  case Nil
  then show ?case by simp
next
  case (Cons n ns)
  show ?case
  proof (cases "updateSingleIndex n None (Some x) key si")
    case (Inl p)
    then show ?thesis by simp
  next
    case (Inr si')
    have ix: "indexers si' = indexers si"
      using Inr by (rule updateSingleIndex_indexers)
    have "n \<noteq> name"
      using Inr updateSingleIndex_new_fails [OF Cons.prems(2) Cons.prems(3), of None key] by auto
    then have "name \<in> set ns" using Cons.prems(1) by simp
    then have "\<exists>p. backfillNames ns (Some x) key si' = Inl p"
      using Cons.IH [of si'] Cons.prems(2,3) ix by simp
    then show ?thesis using Inr by simp
  qed
qed

lemma backfill_fails:
  "(key, Some x) \<in> set its \<Longrightarrow> name \<in> set names \<Longrightarrow>
   map_of (indexers si) name = Some indexFunc \<Longrightarrow> indexFunc (Some x) = Inl e \<Longrightarrow>
   \<exists>p. backfill names its si = Inl p"
proof (induction its arbitrary: si)
  case Nil
  then show ?case by simp
next
  case (Cons kv rest)
  obtain k item where kv: "kv = (k, item)" by (cases kv)
  show ?case
  proof (cases "backfillNames names item k si")
    case (Inl p)
    then show ?thesis by (simp add: kv)
  next
    case (Inr si')
    have ix: "indexers si' = indexers si"
      using Inr by (rule backfillNames_indexers)
    have "(k, item) \<noteq> (key, Some x)"
      using Inr backfillNames_fails [OF Cons.prems(2) Cons.prems(3) Cons.prems(4), of key] by auto
    then have "(key, Some x) \<in> set rest" using Cons.prems(1) kv by auto
    then have "\<exists>p. backfill names rest si' = Inl p"
      using Cons.IH [of si'] Cons.prems(2,3,4) ix by simp
    then show ?thesis using Inr by (simp add: kv)
  qed
qed

lemma updateIndicesLoop_fails:
  "name \<in> set names \<Longrightarrow> map_of (indexers si) name = Some indexFunc \<Longrightarrow>
   indexFunc (Some x) = Inl e \<Longrightarrow> \<exists>p. updateIndicesLoop names oldObj (Some x) key si = Inl p"
proof (induction names arbitrary: si)
  case Nil
  then show ?case by simp
next
  case (Cons n ns)
  show ?case
  proof (cases "updateSingleIndex n oldObj (Some x) key si")
    case (Inl p)
    then show ?thesis by simp
  next
    case (Inr si')
    have ix: "indexers si' = indexers si"
      using Inr by (rule updateSingleIndex_indexers)
    have "n \<noteq> name"
      using Inr updateSingleIndex_new_fails [OF Cons.prems(2) Cons.prems(3), of oldObj key] by auto
    then have "name \<in> set ns" using Cons.prems(1) by simp
    then have "\<exists>p. updateIndicesLoop ns oldObj (Some x) key si' = Inl p"
      using Cons.IH [of si'] Cons.prems(2,3) ix by simp
    then show ?thesis using Inr by simp
  qed
qed

lemma map_of_fold_update_other:
  "name \<notin> fst ` set new \<Longrightarrow>
   map_of (fold (\<lambda>(n, f). AList.update n f) new al) name = map_of al name"
  by (induction new arbitrary: al) (auto simp: update_conv')

lemma map_of_fold_update_new:
  "distinct (map fst new) \<Longrightarrow> (name, f) \<in> set new \<Longrightarrow>
   map_of (fold (\<lambda>(n, f). AList.update n f) new al) name = Some f"
proof (induction new arbitrary: al)
  case Nil
  then show ?case by simp
next
  case (Cons a new)
  then show ?case
    by (cases a) (auto simp: map_of_fold_update_other update_conv' image_iff)
qed

lemma AddIndexer_error_only_conflict:
  "threadSafeMap_AddIndexer name indexFunc tsm = Inr (Some err, tsm') \<Longrightarrow>
     err = IndexerConflict {name} \<and> tsm' = tsm \<and> map_of (indexers (index tsm)) name \<noteq> None"
  by (auto simp: threadSafeMap_AddIndexer_def addIndexer_def split: if_splits sum.splits)

lemma AddIndexers_error_only_conflict:
  "threadSafeMap_AddIndexers newIndexers tsm = Inr (Some err, tsm') \<Longrightarrow>
     err = IndexerConflict (fst ` set (indexers (index tsm)) \<inter> fst ` set newIndexers) \<and> tsm' = tsm"
  by (auto simp: threadSafeMap_AddIndexers_def addIndexers_def Let_def split: if_splits sum.splits)

lemma AddIndexer_fails:
  assumes "map_of (indexers (index tsm)) name = None"
    and "(key, Some x) \<in> set (items tsm)" and "indexFunc (Some x) = Inl e"
  shows "\<exists>p. threadSafeMap_AddIndexer name indexFunc tsm = Inl p"
proof -
  let ?si = "(index tsm)\<lparr>indexers := AList.update name indexFunc (indexers (index tsm))\<rparr>"
  have "map_of (indexers ?si) name = Some indexFunc" by (simp add: update_conv')
  then have "\<exists>p. backfill [name] (items tsm) ?si = Inl p"
    using backfill_fails [OF assms(2), of name "[name]" ?si indexFunc e] assms(3) by simp
  then show ?thesis using assms(1) by (auto simp: threadSafeMap_AddIndexer_def addIndexer_def)
qed

lemma AddIndexers_fails:
  assumes "\<forall>n \<in> set (map fst newIndexers). map_of (indexers (index tsm)) n = None"
    and "distinct (map fst newIndexers)" and "(name, indexFunc) \<in> set newIndexers"
    and "(key, Some x) \<in> set (items tsm)" and "indexFunc (Some x) = Inl e"
  shows "\<exists>p. threadSafeMap_AddIndexers newIndexers tsm = Inl p"
proof -
  let ?si = "(index tsm)\<lparr>indexers := fold (\<lambda>(n, f). AList.update n f) newIndexers (indexers (index tsm))\<rparr>"
  have reg: "map_of (indexers ?si) name = Some indexFunc"
    using map_of_fold_update_new [OF assms(2) assms(3)] by simp
  have "name \<in> set (map fst newIndexers)" using assms(3) by force
  then have "\<exists>p. backfill (map fst newIndexers) (items tsm) ?si = Inl p"
    using backfill_fails [OF assms(4) _ reg assms(5)] by blast
  moreover have "\<not> list_ex (\<lambda>n. n \<in> set (map fst (indexers (index tsm)))) (map fst newIndexers)"
    using assms(1) by (auto simp: list_ex_iff map_of_eq_None_iff)
  ultimately show ?thesis by (auto simp: threadSafeMap_AddIndexers_def addIndexers_def Let_def)
qed

lemma Update_fails:
  assumes "map_of (indexers (index tsm)) name = Some indexFunc" and "indexFunc (Some x) = Inl e"
  shows "\<exists>p. threadSafeMap_Update key (Some x) tsm = Inl p"
proof -
  have "name \<in> set (map fst (indexers (index tsm)))"
    using assms(1) by (metis map_of_eq_None_iff option.distinct(1) set_map)
  then obtain p where "updateIndicesLoop (map fst (indexers (index tsm)))
      (case map_of (items tsm) key of None \<Rightarrow> None | Some x \<Rightarrow> x) (Some x) key (index tsm) = Inl p"
    using updateIndicesLoop_fails [OF _ assms(1) assms(2)] by blast
  then show ?thesis by (simp add: threadSafeMap_Update_def updateIndices_def)
qed


text \<open>
  C7. Registering a name that is already registered, through \<^verbatim>\<open>AddIndexer\<close>, or
  through \<^verbatim>\<open>AddIndexers\<close> when some name of the batch is registered, returns the
  conflict error and leaves the storeIndex and the whole store as they were: none of
  the supplied indexers is registered, and the indexers, the buckets and so every
  query are unchanged.
\<close>

theorem index_conflict_rejected:
  "(map_of (indexers (index tsm)) indexName \<noteq> None \<longrightarrow>
      addIndexer indexName indexFunc (index tsm) = (Some (IndexerConflict {indexName}), index tsm) \<and>
      threadSafeMap_AddIndexer indexName indexFunc tsm = Inr (Some (IndexerConflict {indexName}), tsm))
   \<and> ((\<exists>n \<in> set (map fst newIndexers). map_of (indexers (index tsm)) n \<noteq> None) \<longrightarrow>
      addIndexers newIndexers (index tsm)
        = (Some (IndexerConflict (fst ` set (indexers (index tsm)) \<inter> fst ` set newIndexers)), index tsm) \<and>
      threadSafeMap_AddIndexers newIndexers tsm
        = Inr (Some (IndexerConflict (fst ` set (indexers (index tsm)) \<inter> fst ` set newIndexers)), tsm))"
  by (auto simp: threadSafeMap_AddIndexer_def addIndexer_def threadSafeMap_AddIndexers_def addIndexers_def Let_def list_ex_iff
      map_of_eq_None_iff)

theorem index_conflict_rejected_witness:
  "map_of (indexers (index taggedStore)) ''tags'' \<noteq> None
   \<and> threadSafeMap_AddIndexer ''tags'' failingIndexFunc taggedStore = Inr (Some (IndexerConflict {''tags''}), taggedStore)
   \<and> (\<exists>n \<in> set (map fst [(''size'', failingIndexFunc), (''tags'', failingIndexFunc)]).
         map_of (indexers (index taggedStore)) n \<noteq> None)
   \<and> threadSafeMap_AddIndexers [(''size'', failingIndexFunc), (''tags'', failingIndexFunc)] taggedStore
       = Inr (Some (IndexerConflict {''tags''}), taggedStore)"
proof -
  have h1: "map_of (indexers (index taggedStore)) ''tags'' \<noteq> None"
    by (simp add: taggedStore_def)
  have h2: "\<exists>n \<in> set (map fst [(''size'', failingIndexFunc), (''tags'', failingIndexFunc)]).
         map_of (indexers (index taggedStore)) n \<noteq> None"
    by (simp add: taggedStore_def)
  have s: "fst ` set (indexers (index taggedStore)) \<inter> fst ` set [(''size'', failingIndexFunc), (''tags'', failingIndexFunc)] = {''tags''}"
    by (simp add: taggedStore_def)
  show ?thesis
    using h1 h2 s
      index_conflict_rejected [of taggedStore "''tags''" failingIndexFunc
        "[(''size'', failingIndexFunc), (''tags'', failingIndexFunc)]"]
    by simp
qed


text \<open>
  C8 (counterexample). The claim says that a failure of the index function during
  the back-fill of \<^verbatim>\<open>AddIndexer\<close> is returned to the caller as an error. On a store
  that holds one object, registering an index function that fails panics.
\<close>

theorem backfill_failure_counterexample:
  "threadSafeMap_AddIndexer ''broken'' failingIndexFunc taggedStore
     = Inl (PanicIndexFunc ''broken'' (UserError ''object is not indexable''))"
  by (simp add: threadSafeMap_AddIndexer_def addIndexer_def taggedStore_def updateSingleIndex_def
      indexValuesOf_def failingIndexFunc_def)


text \<open>
  C8 (amended). When the index function of a newly registered index fails on a
  stored non-nil object, \<^verbatim>\<open>AddIndexer\<close> and \<^verbatim>\<open>AddIndexers\<close> panic, as \<^verbatim>\<open>Update\<close> does
  when a registered index function fails on the new object; the only error that
  \<^verbatim>\<open>AddIndexer\<close> and \<^verbatim>\<open>AddIndexers\<close> return is the naming conflict, with the store
  unchanged.
\<close>

theorem backfill_failure_panics:
  "(map_of (indexers (index tsm)) indexName = None \<and> (key, Some x) \<in> set (items tsm)
      \<and> indexFunc (Some x) = Inl e
    \<longrightarrow> (\<exists>p. threadSafeMap_AddIndexer indexName indexFunc tsm = Inl p))
   \<and> ((\<forall>n \<in> set (map fst newIndexers). map_of (indexers (index tsm)) n = None)
      \<and> distinct (map fst newIndexers) \<and> (indexName, indexFunc) \<in> set newIndexers
      \<and> (key, Some x) \<in> set (items tsm) \<and> indexFunc (Some x) = Inl e
    \<longrightarrow> (\<exists>p. threadSafeMap_AddIndexers newIndexers tsm = Inl p))
   \<and> (map_of (indexers (index tsm)) indexName = Some indexFunc \<and> indexFunc (Some x) = Inl e
    \<longrightarrow> (\<exists>p. threadSafeMap_Update key (Some x) tsm = Inl p))
   \<and> (threadSafeMap_AddIndexer indexName indexFunc tsm = Inr (Some err, tsm')
    \<longrightarrow> err = IndexerConflict {indexName} \<and> tsm' = tsm)
   \<and> (threadSafeMap_AddIndexers newIndexers tsm = Inr (Some err, tsm')
    \<longrightarrow> err = IndexerConflict (fst ` set (indexers (index tsm)) \<inter> fst ` set newIndexers)
        \<and> tsm' = tsm)"
  using AddIndexer_fails [of tsm indexName key x indexFunc e]
    AddIndexers_fails [of newIndexers tsm indexName indexFunc key x e]
    Update_fails [of tsm indexName indexFunc x e key]
    AddIndexer_error_only_conflict [of indexName indexFunc tsm err tsm']
    AddIndexers_error_only_conflict [of newIndexers tsm err tsm']
  by blast

theorem backfill_failure_panics_witness:
  "map_of (indexers (index taggedStore)) ''broken'' = None
   \<and> (1, Some [7]) \<in> set (items taggedStore)
   \<and> failingIndexFunc (Some [7]) = Inl (UserError ''object is not indexable'')
   \<and> distinct (map fst [(''broken'', failingIndexFunc)])
   \<and> (\<exists>p. threadSafeMap_AddIndexer ''broken'' failingIndexFunc taggedStore = Inl p)
   \<and> (\<exists>p. threadSafeMap_AddIndexers [(''broken'', failingIndexFunc)] taggedStore = Inl p)
   \<and> map_of (indexers (index (NewThreadSafeStore [(''broken'', failingIndexFunc)] Map.empty
        :: (nat, nat, nat list) threadSafeMap))) ''broken'' = Some failingIndexFunc
   \<and> (\<exists>p. threadSafeMap_Update (1::nat) (Some [7])
          (NewThreadSafeStore [(''broken'', failingIndexFunc)] Map.empty
             :: (nat, nat, nat list) threadSafeMap) = Inl p)
   \<and> threadSafeMap_AddIndexer ''tags'' failingIndexFunc taggedStore
       = Inr (Some (IndexerConflict {''tags''}), taggedStore)
   \<and> threadSafeMap_AddIndexers [(''tags'', failingIndexFunc)] taggedStore
       = Inr (Some (IndexerConflict {''tags''}), taggedStore)"
proof -
  let ?new = "[(''broken'', failingIndexFunc)]"
  let ?broken = "NewThreadSafeStore [(''broken'', failingIndexFunc)] Map.empty
                   :: (nat, nat, nat list) threadSafeMap"
  let ?e = "UserError ''object is not indexable''"
  have h1: "map_of (indexers (index taggedStore)) ''broken'' = None"
    by (simp add: taggedStore_def)
  have h2: "(1, Some [7]) \<in> set (items taggedStore)"
    by (simp add: taggedStore_def)
  have h3: "failingIndexFunc (Some [7]) = Inl ?e"
    by (simp add: failingIndexFunc_def)
  have h4: "\<forall>n \<in> set (map fst ?new). map_of (indexers (index taggedStore)) n = None"
    by (simp add: taggedStore_def)
  have h5: "distinct (map fst ?new)" "(''broken'', failingIndexFunc) \<in> set ?new"
    by simp_all
  have h6: "map_of (indexers (index ?broken)) ''broken'' = Some failingIndexFunc"
    by (simp add: NewThreadSafeStore_def)
  have h7: "threadSafeMap_AddIndexer ''tags'' failingIndexFunc taggedStore
       = Inr (Some (IndexerConflict {''tags''}), taggedStore)"
    by (simp add: threadSafeMap_AddIndexer_def addIndexer_def taggedStore_def)
  have h8: "threadSafeMap_AddIndexers [(''tags'', failingIndexFunc)] taggedStore
       = Inr (Some (IndexerConflict {''tags''}), taggedStore)"
    by (simp add: threadSafeMap_AddIndexers_def addIndexers_def taggedStore_def)
  have a: "\<exists>p. threadSafeMap_AddIndexer ''broken'' failingIndexFunc taggedStore = Inl p"
    using backfill_failure_panics [of taggedStore "''broken''" 1 "[7]" failingIndexFunc ?e]
      h1 h2 h3 by blast
  have b: "\<exists>p. threadSafeMap_AddIndexers ?new taggedStore = Inl p"
    using backfill_failure_panics [of taggedStore "''broken''" 1 "[7]" failingIndexFunc ?e ?new]
      h2 h3 h4 h5 by blast
  have c: "\<exists>p. threadSafeMap_Update (1::nat) (Some [7]) ?broken = Inl p"
    using backfill_failure_panics [of ?broken "''broken''" 1 "[7]" failingIndexFunc ?e]
      h3 h6 by blast
  show ?thesis
    using h1 h2 h3 h5 h6 h7 h8 a b c by blast
qed

section \<open>Properties of the heap of LFU\<close>

declare heap_up.simps [simp del]

declare heap_down_loop.simps [simp del]

lemma length_Swap [simp]: "length (lfuHeap_Swap h i j) = length h"
  by (simp add: lfuHeap_Swap_def Let_def)

lemma Swap_nth:
  "i < length h \<Longrightarrow> j < length h \<Longrightarrow> k < length h \<Longrightarrow>
   lfuHeap_Swap h i j ! k =
     (if k = j then (h ! i)\<lparr>heapIndex := j\<rparr>
      else if k = i then (h ! j)\<lparr>heapIndex := i\<rparr> else h ! k)"
  by (simp add: lfuHeap_Swap_def Let_def nth_list_update)

lemma Swap_nth_other:
  "k \<noteq> i \<Longrightarrow> k \<noteq> j \<Longrightarrow> lfuHeap_Swap h i j ! k = h ! k"
  by (simp add: lfuHeap_Swap_def Let_def)

lemma mset_Swap:
  "i < length h \<Longrightarrow> j < length h \<Longrightarrow>
   mset (map entryPair (lfuHeap_Swap h i j)) = mset (map entryPair h)"
proof -
  assume ij: "i < length h" "j < length h"
  let ?m = "map entryPair h"
  have "map entryPair (lfuHeap_Swap h i j) = ?m[i := ?m ! j, j := ?m ! i]"
    using ij by (simp add: lfuHeap_Swap_def Let_def map_update entryPair_def)
  moreover have "mset (?m[i := ?m ! j, j := ?m ! i]) = mset ?m"
    using ij mset_swap [of j ?m i] by simp
  ultimately show ?thesis by (simp only:)
qed

lemma indices_ok_iff: "indices_ok h \<longleftrightarrow> (\<forall>i<length h. heapIndex (h ! i) = i)"
proof -
  have "map heapIndex h = [0..<length h]
        \<longleftrightarrow> (\<forall>i<length h. map heapIndex h ! i = [0..<length h] ! i)"
    by (subst list_eq_iff_nth_eq) simp
  then show ?thesis by (simp add: indices_ok_def)
qed

lemma indices_ok_Swap:
  "i < length h \<Longrightarrow> j < length h \<Longrightarrow> indices_ok h \<Longrightarrow> indices_ok (lfuHeap_Swap h i j)"
  by (simp add: indices_ok_iff Swap_nth)

lemma heap_up_preserves:
  assumes step: "\<And>h a b. a < n \<Longrightarrow> b < n \<Longrightarrow> n \<le> length h \<Longrightarrow> P h \<Longrightarrow> P (lfuHeap_Swap h a b)"
  shows "j < n \<Longrightarrow> n \<le> length h \<Longrightarrow> P h \<Longrightarrow>
         P (heap_up h j) \<and> length (heap_up h j) = length h"
proof (induction h j rule: heap_up.induct)
  case (1 h j)
  let ?i = "(j - 1) div 2"
  show ?case
  proof (cases "?i = j \<or> \<not> lfuHeap_Less h j ?i")
    case True
    then have "heap_up h j = h" by (subst heap_up.simps) (simp add: Let_def)
    then show ?thesis using "1.prems" by simp
  next
    case False
    then have eq: "heap_up h j = heap_up (lfuHeap_Swap h ?i j) ?i"
      by (subst heap_up.simps) (simp add: Let_def)
    have lt: "?i < n" using "1.prems"(1) by arith
    have "P (lfuHeap_Swap h ?i j)" using step lt "1.prems" by blast
    then show ?thesis
      using "1.IH" [OF refl False lt] "1.prems"(2) eq by simp
  qed
qed

lemma heap_down_loop_preserves:
  assumes step: "\<And>n h a b. a < n \<Longrightarrow> b < n \<Longrightarrow> n \<le> length h \<Longrightarrow> P n h \<Longrightarrow> P n (lfuHeap_Swap h a b)"
  shows "i < n \<Longrightarrow> n \<le> length h \<Longrightarrow> P n h \<Longrightarrow>
         P n (fst (heap_down_loop h i n)) \<and> length (fst (heap_down_loop h i n)) = length h"
proof (induction h i n rule: heap_down_loop.induct)
  case (1 h i n)
  let ?j1 = "2 * i + 1"
  let ?j = "if ?j1 + 1 < n \<and> lfuHeap_Less h (?j1 + 1) ?j1 then ?j1 + 1 else ?j1"
  show ?case
  proof (cases "?j1 \<ge> n \<or> \<not> lfuHeap_Less h ?j i")
    case True
    then have "heap_down_loop h i n = (h, i)"
      by (subst heap_down_loop.simps) (auto simp: Let_def)
    then show ?thesis using "1.prems" by simp
  next
    case False
    then have eq: "heap_down_loop h i n = heap_down_loop (lfuHeap_Swap h i ?j) ?j n"
      by (subst heap_down_loop.simps) (auto simp: Let_def)
    have lt: "?j < n" using False by auto
    have "P n (lfuHeap_Swap h i ?j)"
      using step "1.prems" lt by blast
    moreover have "\<not> n \<le> ?j1" "\<not> \<not> lfuHeap_Less h ?j i" using False by auto
    ultimately show ?thesis
      using "1.IH" [OF refl _ refl _ lt] "1.prems"(2) eq by simp
  qed
qed

lemma fr_Swap:
  "i < length h \<Longrightarrow> j < length h \<Longrightarrow> k < length h \<Longrightarrow>
   frequency (lfuHeap_Swap h i j ! k) =
     (if k = j then frequency (h ! i) else if k = i then frequency (h ! j)
      else frequency (h ! k))"
  by (simp add: Swap_nth)

lemma ord_n_from_except:
  assumes "ord_except h n i" "children_ok h n i"
    and "0 < i \<Longrightarrow> frequency (h ! ((i - 1) div 2)) \<le> frequency (h ! i)"
  shows "ord_n h n"
  unfolding ord_n_def
proof (intro allI impI)
  fix c assume c: "0 < c \<and> c < n"
  show "frequency (h ! ((c - 1) div 2)) \<le> frequency (h ! c)"
  proof (cases "c = i")
    case True
    then show ?thesis using assms(3) c by simp
  next
    case False
    show ?thesis
    proof (cases "(c - 1) div 2 = i")
      case True
      then show ?thesis using assms(2) c by (auto simp: children_ok_def)
    next
      case False
      then show ?thesis using assms(1) c \<open>c \<noteq> i\<close> by (auto simp: ord_except_def)
    qed
  qed
qed

lemma child_cases: "0 < (c::nat) \<Longrightarrow> (c - 1) div 2 = i \<Longrightarrow> c = 2 * i + 1 \<or> c = 2 * i + 2"
  by arith

lemma ord_exceptD1:
  "ord_except h n i \<Longrightarrow> 0 < c \<Longrightarrow> c < n \<Longrightarrow> c \<noteq> i \<Longrightarrow> (c - 1) div 2 \<noteq> i \<Longrightarrow>
   frequency (h ! ((c - 1) div 2)) \<le> frequency (h ! c)"
  by (simp add: ord_except_def)

lemma ord_exceptD2:
  "ord_except h n i \<Longrightarrow> 0 < c \<Longrightarrow> c < n \<Longrightarrow> (c - 1) div 2 = i \<Longrightarrow> 0 < i \<Longrightarrow>
   frequency (h ! ((i - 1) div 2)) \<le> frequency (h ! c)"
  by (simp add: ord_except_def)

lemma down_correct:
  "i < n \<Longrightarrow> n \<le> length h \<Longrightarrow> ord_except h n i \<Longrightarrow>
   (case heap_down_loop h i n of
      (h', i') \<Rightarrow> (i' = i \<and> h' = h \<and> children_ok h n i) \<or> (i < i' \<and> ord_n h' n))"
proof (induction h i n rule: heap_down_loop.induct)
  case (1 h i n)
  let ?j1 = "2 * i + 1"
  define j where "j = (if ?j1 + 1 < n \<and> lfuHeap_Less h (?j1 + 1) ?j1 then ?j1 + 1 else ?j1)"
  have ij: "i < j" and pj: "(j - 1) div 2 = i" and j0: "0 < j"
    by (simp_all add: j_def)
  have min_child: "frequency (h ! j) \<le> frequency (h ! c)"
    if c: "0 < c" "c < n" "(c - 1) div 2 = i" for c
    using child_cases [OF c(1) c(3)] c(2) by (auto simp: j_def lfuHeap_Less_def)
  have unfold: "heap_down_loop h i n =
      (if ?j1 \<ge> n then (h, i)
       else if \<not> lfuHeap_Less h j i then (h, i)
       else heap_down_loop (lfuHeap_Swap h i j) j n)"
    by (subst heap_down_loop.simps) (simp add: Let_def j_def)
  show ?case
  proof (cases "?j1 \<ge> n")
    case True
    then have eq: "heap_down_loop h i n = (h, i)"
      using unfold by simp
    have "children_ok h n i"
      unfolding children_ok_def
    proof (intro allI impI)
      fix c assume c: "0 < c \<and> c < n \<and> (c - 1) div 2 = i"
      then have "c = 2 * i + 1 \<or> c = 2 * i + 2" using child_cases by blast
      then have False using True c by arith
      then show "frequency (h ! i) \<le> frequency (h ! c)" ..
    qed
    then show ?thesis using eq by simp
  next
    case j1: False
    have jn: "j < n" using j1 by (simp add: j_def)
    show ?thesis
    proof (cases "lfuHeap_Less h j i")
      case False
      then have eq: "heap_down_loop h i n = (h, i)"
        using j1 unfold by simp
      have "children_ok h n i"
        unfolding children_ok_def
      proof (intro allI impI)
        fix c assume c: "0 < c \<and> c < n \<and> (c - 1) div 2 = i"
        have "frequency (h ! i) \<le> frequency (h ! j)"
          using False by (simp add: lfuHeap_Less_def)
        moreover have "frequency (h ! j) \<le> frequency (h ! c)"
          using min_child [of c] c by simp
        ultimately show "frequency (h ! i) \<le> frequency (h ! c)" by simp
      qed
      then show ?thesis using eq by simp
    next
      case less: True
      define h2 where "h2 = lfuHeap_Swap h i j"
      have eq: "heap_down_loop h i n = heap_down_loop h2 j n"
        using j1 less unfold by (simp add: h2_def)
      have il: "i < length h" and jl: "j < length h"
        using "1.prems" jn by auto
      have fji: "frequency (h ! j) < frequency (h ! i)"
        using less by (simp add: lfuHeap_Less_def)
      have fr2: "frequency (h2 ! k) =
          (if k = j then frequency (h ! i) else if k = i then frequency (h ! j)
           else frequency (h ! k))" if "k < length h" for k
        unfolding h2_def using fr_Swap [OF il jl that] .
      have ex2: "ord_except h2 n j"
        unfolding ord_except_def
      proof (intro conjI allI impI)
        fix c assume c: "0 < c \<and> c < n \<and> c \<noteq> j \<and> (c - 1) div 2 \<noteq> j"
        define p where "p = (c - 1) div 2"
        have cl: "c < length h" and pl: "p < length h" and pc: "p < c"
          using c "1.prems" by (auto simp: p_def)
        have pnj: "p \<noteq> j" using c by (simp add: p_def)
        have "frequency (h2 ! p) \<le> frequency (h2 ! c)"
        proof (cases "c = i")
          case True
          then have i0: "0 < i" using c by simp
          have "p \<noteq> i" using True pc by simp
          then have "frequency (h2 ! p) = frequency (h ! ((i - 1) div 2))"
            using fr2 [OF pl] True pnj by (simp add: p_def)
          moreover have "frequency (h2 ! c) = frequency (h ! j)"
            using fr2 [OF cl] True ij by simp
          moreover have "frequency (h ! ((i - 1) div 2)) \<le> frequency (h ! j)"
            using ord_exceptD2 [OF "1.prems"(3) j0 jn pj i0] .
          ultimately show ?thesis by simp
        next
          case ci: False
          show ?thesis
          proof (cases "p = i")
            case True
            have "frequency (h2 ! p) = frequency (h ! j)"
              using fr2 [OF pl] True ij by simp
            moreover have "frequency (h2 ! c) = frequency (h ! c)"
              using fr2 [OF cl] c ci by simp
            moreover have "frequency (h ! j) \<le> frequency (h ! c)"
              using min_child [of c] c True by (simp add: p_def)
            ultimately show ?thesis by simp
          next
            case False
            have "frequency (h2 ! p) = frequency (h ! p)"
              using fr2 [OF pl] False pnj by simp
            moreover have "frequency (h2 ! c) = frequency (h ! c)"
              using fr2 [OF cl] c ci by simp
            moreover have "frequency (h ! p) \<le> frequency (h ! c)"
              using ord_exceptD1 [OF "1.prems"(3), of c] c ci False by (simp add: p_def)
            ultimately show ?thesis by simp
          qed
        qed
        then show "frequency (h2 ! ((c - 1) div 2)) \<le> frequency (h2 ! c)"
          by (simp add: p_def)
      next
        fix c assume c: "0 < c \<and> c < n \<and> (c - 1) div 2 = j \<and> 0 < j"
        have cl: "c < length h" using c "1.prems" by auto
        have cj: "j < c" using c by arith
        have "frequency (h2 ! i) = frequency (h ! j)"
          using fr2 [OF il] ij by simp
        moreover have "frequency (h2 ! c) = frequency (h ! c)"
          using fr2 [OF cl] cj ij by simp
        moreover have "frequency (h ! ((c - 1) div 2)) \<le> frequency (h ! c)"
          using ord_exceptD1 [OF "1.prems"(3), of c] c cj ij by simp
        ultimately show "frequency (h2 ! ((j - 1) div 2)) \<le> frequency (h2 ! c)"
          using c pj by simp
      qed
      have len2: "n \<le> length h2" using "1.prems" by (simp add: h2_def)
      have IH: "case heap_down_loop h2 j n of
          (h', i') \<Rightarrow> (i' = j \<and> h' = h2 \<and> children_ok h2 n j) \<or> (j < i' \<and> ord_n h' n)"
        using "1.IH" [OF refl j1 refl] less jn len2 ex2
        unfolding j_def h2_def by simp
      obtain h' i' where r: "heap_down_loop h2 j n = (h', i')" by force
      have par2: "frequency (h2 ! ((j - 1) div 2)) \<le> frequency (h2 ! j)"
        using fr2 [OF il] fr2 [OF jl] ij pj fji by simp
      have "i < i' \<and> ord_n h' n"
      proof (cases "i' = j \<and> h' = h2 \<and> children_ok h2 n j")
        case True
        then have "ord_n h2 n"
          using ord_n_from_except [OF ex2 _ par2] by blast
        then show ?thesis using True ij by simp
      next
        case False
        then have "j < i' \<and> ord_n h' n" using IH r by auto
        then show ?thesis using ij by auto
      qed
      then show ?thesis using eq r by simp
    qed
  qed
qed

lemma up_correct:
  "j < n \<Longrightarrow> n \<le> length h \<Longrightarrow> ord_except h n j \<Longrightarrow> children_ok h n j \<Longrightarrow>
   ord_n (heap_up h j) n"
proof (induction h j rule: heap_up.induct)
  case (1 h j)
  define i where "i = (j - 1) div 2"
  have unfold: "heap_up h j =
      (if i = j \<or> \<not> lfuHeap_Less h j i then h else heap_up (lfuHeap_Swap h i j) i)"
    by (subst heap_up.simps) (simp add: Let_def i_def)
  show ?case
  proof (cases "i = j \<or> \<not> lfuHeap_Less h j i")
    case True
    have "frequency (h ! ((j - 1) div 2)) \<le> frequency (h ! j)" if "0 < j"
    proof -
      have "i \<noteq> j" using that by (simp add: i_def)
      then show ?thesis using True by (simp add: i_def lfuHeap_Less_def)
    qed
    then have "ord_n h n"
      using ord_n_from_except [OF "1.prems"(3) "1.prems"(4)] by simp
    then show ?thesis using unfold True by simp
  next
    case False
    define h2 where "h2 = lfuHeap_Swap h i j"
    have eq: "heap_up h j = heap_up h2 i" using unfold False by (simp add: h2_def)
    have ij: "i < j" and j0: "0 < j" using False by (auto simp: i_def)
    have fji: "frequency (h ! j) < frequency (h ! i)"
      using False by (simp add: lfuHeap_Less_def)
    have jl: "j < length h" and il: "i < length h" and "i < n"
      using "1.prems" ij by auto
    have fr2: "frequency (h2 ! k) =
        (if k = j then frequency (h ! i) else if k = i then frequency (h ! j)
         else frequency (h ! k))" if "k < length h" for k
      unfolding h2_def using fr_Swap [OF il jl that] .
    have par_i: "frequency (h ! ((i - 1) div 2)) \<le> frequency (h ! i)" if "0 < i"
      using ord_exceptD1 [OF "1.prems"(3), of i] that ij \<open>i < n\<close> by simp
    have ex2: "ord_except h2 n i"
      unfolding ord_except_def
    proof (intro conjI allI impI)
      fix c assume c: "0 < c \<and> c < n \<and> c \<noteq> i \<and> (c - 1) div 2 \<noteq> i"
      define p where "p = (c - 1) div 2"
      have cl: "c < length h" and pl: "p < length h" and pc: "p < c"
        using c "1.prems" by (auto simp: p_def)
      have cj: "c \<noteq> j" using c by (auto simp: i_def)
      have pni: "p \<noteq> i" using c by (simp add: p_def)
      have "frequency (h2 ! p) \<le> frequency (h2 ! c)"
      proof (cases "p = j")
        case True
        have "frequency (h2 ! p) = frequency (h ! i)"
          using fr2 [OF pl] True by simp
        moreover have "frequency (h2 ! c) = frequency (h ! c)"
          using fr2 [OF cl] c cj by simp
        moreover have "frequency (h ! ((j - 1) div 2)) \<le> frequency (h ! c)"
          using ord_exceptD2 [OF "1.prems"(3), of c] c True j0 by (simp add: p_def)
        ultimately show ?thesis by (simp add: i_def)
      next
        case False
        have "frequency (h2 ! p) = frequency (h ! p)"
          using fr2 [OF pl] False pni by simp
        moreover have "frequency (h2 ! c) = frequency (h ! c)"
          using fr2 [OF cl] c cj by simp
        moreover have "frequency (h ! p) \<le> frequency (h ! c)"
          using ord_exceptD1 [OF "1.prems"(3), of c] c cj False by (simp add: p_def)
        ultimately show ?thesis by simp
      qed
      then show "frequency (h2 ! ((c - 1) div 2)) \<le> frequency (h2 ! c)"
        by (simp add: p_def)
    next
      fix c assume c: "0 < c \<and> c < n \<and> (c - 1) div 2 = i \<and> 0 < i"
      define q where "q = (i - 1) div 2"
      have qi: "q < i" using c unfolding q_def by arith
      have cl: "c < length h" and ci: "i < c" and ql: "q < length h"
        using c "1.prems" il qi by auto
      have "frequency (h2 ! q) = frequency (h ! q)"
        using fr2 [OF ql] qi ij by simp
      moreover have "frequency (h ! q) \<le> frequency (h ! i)"
        using par_i c by (simp add: q_def)
      moreover have "frequency (h ! i) \<le> frequency (h2 ! c)"
      proof (cases "c = j")
        case True
        then show ?thesis using fr2 [OF cl] by simp
      next
        case False
        have "frequency (h ! ((c - 1) div 2)) \<le> frequency (h ! c)"
          using ord_exceptD1 [OF "1.prems"(3), of c] c False ij by simp
        then show ?thesis using fr2 [OF cl] False ci c by simp
      qed
      ultimately show "frequency (h2 ! ((i - 1) div 2)) \<le> frequency (h2 ! c)"
        by (simp add: q_def)
    qed
    have ch2: "children_ok h2 n i"
      unfolding children_ok_def
    proof (intro allI impI)
      fix c assume c: "0 < c \<and> c < n \<and> (c - 1) div 2 = i"
      have cl: "c < length h" and ci: "i < c" using c "1.prems" by auto
      have "frequency (h2 ! i) = frequency (h ! j)" using fr2 [OF il] ij by simp
      moreover have "frequency (h ! j) \<le> frequency (h2 ! c)"
      proof (cases "c = j")
        case True
        then show ?thesis using fr2 [OF cl] fji by simp
      next
        case False
        have "frequency (h ! ((c - 1) div 2)) \<le> frequency (h ! c)"
          using ord_exceptD1 [OF "1.prems"(3), of c] c False ij by simp
        then show ?thesis using fr2 [OF cl] False ci c fji by simp
      qed
      ultimately show "frequency (h2 ! i) \<le> frequency (h2 ! c)" by simp
    qed
    have "n \<le> length h2" using "1.prems" by (simp add: h2_def)
    then have "ord_n (heap_up h2 i) n"
      using "1.IH" [OF refl] False \<open>i < n\<close> ex2 ch2 unfolding i_def h2_def by simp
    then show ?thesis using eq by simp
  qed
qed

lemma fixup_correct:
  assumes "i < n" "n \<le> length h" "ord_except h n i"
  shows "ord_n (heap_fixup h i n) n"
proof -
  obtain h' i' where r: "heap_down_loop h i n = (h', i')" by force
  from down_correct [OF assms] r
  have d: "(i' = i \<and> h' = h \<and> children_ok h n i) \<or> (i < i' \<and> ord_n h' n)" by simp
  show ?thesis
  proof (cases "i < i'")
    case True
    then show ?thesis using d r by (auto simp: heap_fixup_def heap_down_def)
  next
    case False
    then have "i' = i" "h' = h" "children_ok h n i" using d by auto
    then show ?thesis
      using r up_correct [OF assms(1) assms(2) assms(3)]
      by (simp add: heap_fixup_def heap_down_def)
  qed
qed

lemma heap_ordered_iff: "heap_ordered h \<longleftrightarrow> ord_n h (length h)"
  by (auto simp: heap_ordered_def ord_n_def list_all_iff)

lemma ord_nD:
  "ord_n h n \<Longrightarrow> 0 < c \<Longrightarrow> c < n \<Longrightarrow>
   frequency (h ! ((c - 1) div 2)) \<le> frequency (h ! c)"
  by (simp add: ord_n_def)

lemma image_mset_Swap:
  "i < length h \<Longrightarrow> j < length h \<Longrightarrow>
   image_mset entryPair (mset (lfuHeap_Swap h i j)) = image_mset entryPair (mset h)"
  using mset_Swap [of i h j] by simp

lemma ord_except_of_ord:
  assumes o: "ord_n h m"
    and same: "\<And>k. k < n \<Longrightarrow> k \<noteq> i \<Longrightarrow> k < m \<and> frequency (h1 ! k) = frequency (h ! k)"
  shows "ord_except h1 n i"
  unfolding ord_except_def
proof (intro conjI allI impI)
  fix c assume c: "0 < c \<and> c < n \<and> c \<noteq> i \<and> (c - 1) div 2 \<noteq> i"
  have pn: "(c - 1) div 2 < n" using c by arith
  have "frequency (h ! ((c - 1) div 2)) \<le> frequency (h ! c)"
    using ord_nD [OF o, of c] same [of c] c by simp
  then show "frequency (h1 ! ((c - 1) div 2)) \<le> frequency (h1 ! c)"
    using same [of c] same [OF pn] c by simp
next
  fix c assume c: "0 < c \<and> c < n \<and> (c - 1) div 2 = i \<and> 0 < i"
  have ci: "i < c" using c by arith
  have qi: "(i - 1) div 2 < i" using c by arith
  have cm: "c < m" using same [of c] c ci by simp
  have "frequency (h ! ((c - 1) div 2)) \<le> frequency (h ! c)"
    using ord_nD [OF o, of c] c cm by simp
  moreover have "frequency (h ! ((i - 1) div 2)) \<le> frequency (h ! i)"
    using ord_nD [OF o, of i] c ci cm by simp
  ultimately have "frequency (h ! ((i - 1) div 2)) \<le> frequency (h ! c)" using c by simp
  then show "frequency (h1 ! ((i - 1) div 2)) \<le> frequency (h1 ! c)"
    using same [of c] same [of "(i - 1) div 2"] c ci qi by simp
qed

lemma ord_n_mono: "ord_n h n \<Longrightarrow> m \<le> n \<Longrightarrow> ord_n h m"
  by (simp add: ord_n_def)

lemma ord_n_take: "ord_n h n \<Longrightarrow> n \<le> length h \<Longrightarrow> heap_ordered (take n h)"
proof -
  assume a: "ord_n h n" "n \<le> length h"
  have "ord_n (take n h) n"
    unfolding ord_n_def
  proof (intro allI impI)
    fix c assume c: "0 < c \<and> c < n"
    then have "(c - 1) div 2 < n" by arith
    then show "frequency (take n h ! ((c - 1) div 2)) \<le> frequency (take n h ! c)"
      using ord_nD [OF a(1), of c] c by simp
  qed
  then show ?thesis using a by (simp add: heap_ordered_iff min_def)
qed

lemma heap_struct_Swap:
  "a < n \<Longrightarrow> b < n \<Longrightarrow> n \<le> length h \<Longrightarrow> heap_struct M n h0 h \<Longrightarrow>
   heap_struct M n h0 (lfuHeap_Swap h a b)"
  by (auto simp: heap_struct_def image_mset_Swap indices_ok_Swap Swap_nth_other)

lemma heap_up_struct:
  "j < n \<Longrightarrow> n \<le> length h \<Longrightarrow> heap_struct M n h0 h \<Longrightarrow> heap_struct M n h0 (heap_up h j)"
  using heap_up_preserves [of n "heap_struct M n h0" j h] heap_struct_Swap by blast

lemma heap_down_loop_struct:
  "i < n \<Longrightarrow> n \<le> length h \<Longrightarrow> heap_struct M n h0 h \<Longrightarrow>
   heap_struct M n h0 (fst (heap_down_loop h i n))"
  using heap_down_loop_preserves [of "\<lambda>n. heap_struct M n h0" i n h] heap_struct_Swap
  by blast

lemma heap_fixup_struct:
  assumes "i < n" "n \<le> length h" "heap_struct M n h0 h"
  shows "heap_struct M n h0 (heap_fixup h i n)"
proof -
  obtain h' i' where r: "heap_down_loop h i n = (h', i')" by force
  have s: "heap_struct M n h0 h'"
    using heap_down_loop_struct [OF assms] r by simp
  then have "n \<le> length h'" using assms(2) assms(3) by (simp add: heap_struct_def)
  then have "heap_struct M n h0 (heap_up h' i)"
    using heap_up_struct [OF assms(1) _ s] by simp
  then show ?thesis using r s by (auto simp: heap_fixup_def heap_down_def split: bool.splits)
qed

lemma heap_struct_refl:
  "indices_ok h \<Longrightarrow> heap_struct (mset (map entryPair h)) n h h"
  by (simp add: heap_struct_def)

lemma heap_Fix_fixup: "heap_Fix h i = heap_fixup h i (length h)"
  by (simp add: heap_Fix_def heap_fixup_def)

lemma heap_Remove_fixup:
  "heap_Remove h i =
     lfuHeap_Pop (if length h - 1 \<noteq> i
                  then heap_fixup (lfuHeap_Swap h i (length h - 1)) i (length h - 1) else h)"
  by (simp add: heap_Remove_def heap_fixup_def Let_def)

lemma indices_ok_butlast: "indices_ok h \<Longrightarrow> indices_ok (butlast h)"
  by (simp add: indices_ok_iff nth_butlast)

lemma indices_ok_Push: "indices_ok h \<Longrightarrow> indices_ok (lfuHeap_Push h x)"
  by (simp add: indices_ok_iff lfuHeap_Push_def nth_append)

lemma heap_ordered_butlast: "heap_ordered h \<Longrightarrow> heap_ordered (butlast h)"
  using ord_n_take [of h "length h - 1"] ord_n_mono [of h "length h" "length h - 1"]
  by (simp add: heap_ordered_iff butlast_conv_take)

lemma struct_pop:
  assumes s: "heap_struct M n h1 h2" and len: "length h1 = Suc n"
  shows "last h2 = h1 ! n"
    and "mset (map entryPair (butlast h2)) + {#entryPair (h1 ! n)#} = M"
    and "indices_ok (butlast h2)"
proof -
  have l2: "length h2 = Suc n" and ne: "h2 \<noteq> []" using s len by (auto simp: heap_struct_def)
  have "h2 ! n = h1 ! n" using s len by (simp add: heap_struct_def)
  then show last: "last h2 = h1 ! n" using l2 ne by (simp add: last_conv_nth)
  obtain ys y where h2: "h2 = ys @ [y]" using ne by (cases h2 rule: rev_cases) auto
  have "mset (map entryPair h2) = mset (map entryPair (butlast h2)) + {#entryPair (last h2)#}"
    by (simp add: h2)
  then show "mset (map entryPair (butlast h2)) + {#entryPair (h1 ! n)#} = M"
    using s last by (simp add: heap_struct_def)
  show "indices_ok (butlast h2)" using s by (simp add: heap_struct_def indices_ok_butlast)
qed

lemma heap_Push_spec:
  assumes "indices_ok h"
  shows "mset (map entryPair (heap_Push h x)) = mset (map entryPair h) + {#entryPair x#}"
    and "indices_ok (heap_Push h x)"
    and "heap_ordered h \<Longrightarrow> heap_ordered (heap_Push h x)"
proof -
  define h1 where "h1 = lfuHeap_Push h x"
  define n where "n = length h"
  have l1: "length h1 = Suc n" by (simp add: h1_def n_def lfuHeap_Push_def)
  have p: "heap_Push h x = heap_up h1 n" by (simp add: heap_Push_def h1_def n_def Let_def lfuHeap_Push_def)
  have i1: "indices_ok h1" using assms by (simp add: h1_def indices_ok_Push)
  have m1: "mset (map entryPair h1) = mset (map entryPair h) + {#entryPair x#}"
    by (simp add: h1_def lfuHeap_Push_def entryPair_def)
  have "heap_struct (mset (map entryPair h1)) (Suc n) h1 (heap_up h1 n)"
    using heap_up_struct [of n "Suc n" h1, OF _ _ heap_struct_refl [OF i1]] l1 by simp
  then show "mset (map entryPair (heap_Push h x)) = mset (map entryPair h) + {#entryPair x#}"
    and "indices_ok (heap_Push h x)"
    using p m1 by (simp_all add: heap_struct_def)
  assume o: "heap_ordered h"
  have ex: "ord_except h1 (Suc n) n"
  proof (rule ord_except_of_ord [of h n])
    show "ord_n h n" using o by (simp add: heap_ordered_iff n_def)
  next
    fix k assume "k < Suc n" "k \<noteq> n"
    then show "k < n \<and> frequency (h1 ! k) = frequency (h ! k)"
      by (simp add: h1_def lfuHeap_Push_def nth_append n_def)
  qed
  have ch: "children_ok h1 (Suc n) n"
    unfolding children_ok_def by (auto dest: child_cases)
  have "ord_n (heap_up h1 n) (Suc n)"
    using up_correct [of n "Suc n" h1] ex ch l1 by simp
  moreover have "length (heap_up h1 n) = Suc n"
    using heap_up_preserves [of "Suc n" "\<lambda>_. True" n h1] l1 by simp
  ultimately show "heap_ordered (heap_Push h x)" using p by (simp add: heap_ordered_iff)
qed

lemma heap_Fix_spec:
  assumes "indices_ok h" "p < length h"
  shows "mset (map entryPair (heap_Fix h p)) = mset (map entryPair h)"
    and "indices_ok (heap_Fix h p)"
    and "length (heap_Fix h p) = length h"
    and "ord_except h (length h) p \<Longrightarrow> heap_ordered (heap_Fix h p)"
proof -
  have s: "heap_struct (mset (map entryPair h)) (length h) h (heap_Fix h p)"
    using heap_fixup_struct [OF assms(2) _ heap_struct_refl [OF assms(1)]]
    by (simp add: heap_Fix_fixup)
  then show "mset (map entryPair (heap_Fix h p)) = mset (map entryPair h)"
    and "indices_ok (heap_Fix h p)" and l: "length (heap_Fix h p) = length h"
    by (simp_all add: heap_struct_def)
  assume "ord_except h (length h) p"
  then show "heap_ordered (heap_Fix h p)"
    using fixup_correct [OF assms(2), of h] l by (simp add: heap_Fix_fixup heap_ordered_iff)
qed

lemma heap_Remove_spec:
  assumes io: "indices_ok h" and il: "i < length h"
  shows "entryPair (snd (heap_Remove h i)) = entryPair (h ! i)"
    and "mset (map entryPair (fst (heap_Remove h i))) + {#entryPair (h ! i)#}
         = mset (map entryPair h)"
    and "indices_ok (fst (heap_Remove h i))"
    and "heap_ordered h \<Longrightarrow> heap_ordered (fst (heap_Remove h i))"
proof -
  define n where "n = length h - 1"
  have len: "length h = Suc n" using il by (simp add: n_def)
  define h1 where "h1 = lfuHeap_Swap h i n"
  define h2 where "h2 = (if n \<noteq> i then heap_fixup h1 i n else h)"
  have r: "heap_Remove h i = (butlast h2, last h2)"
    by (simp add: heap_Remove_fixup h2_def h1_def n_def lfuHeap_Pop_def)
  have nl: "n < length h" using len by simp
  have s: "heap_struct (mset (map entryPair h)) n (if n \<noteq> i then h1 else h) h2"
  proof (cases "n = i")
    case True
    then show ?thesis using heap_struct_refl [OF io] by (simp add: h2_def)
  next
    case False
    then have "i < n" using il len by simp
    moreover have "heap_struct (mset (map entryPair h)) n h1 h1"
      using heap_struct_refl [of h1 n] indices_ok_Swap [OF il nl io] mset_Swap [OF il nl]
      by (simp add: h1_def)
    ultimately show ?thesis
      using heap_fixup_struct [of i n h1] False len by (simp add: h2_def h1_def)
  qed
  have last1: "entryPair ((if n \<noteq> i then h1 else h) ! n) = entryPair (h ! i)"
    using Swap_nth [OF il nl nl] by (auto simp: h1_def entryPair_def)
  have len1: "length (if n \<noteq> i then h1 else h) = Suc n" using len by (simp add: h1_def)
  show "entryPair (snd (heap_Remove h i)) = entryPair (h ! i)"
    using struct_pop(1) [OF s len1] last1 r by simp
  show "mset (map entryPair (fst (heap_Remove h i))) + {#entryPair (h ! i)#}
         = mset (map entryPair h)"
    using struct_pop(2) [OF s len1] last1 r by simp
  show "indices_ok (fst (heap_Remove h i))"
    using struct_pop(3) [OF s len1] r by simp
  assume o: "heap_ordered h"
  have "ord_n h2 n"
  proof (cases "n = i")
    case True
    then show ?thesis using o ord_n_mono [of h "length h" n] by (simp add: h2_def heap_ordered_iff n_def)
  next
    case False
    then have lt: "i < n" using il len by simp
    have ex: "ord_except h1 n i"
    proof (rule ord_except_of_ord [of h "Suc n"])
      show "ord_n h (Suc n)" using o len by (simp add: heap_ordered_iff)
    next
      fix k assume "k < n" "k \<noteq> i"
      then show "k < Suc n \<and> frequency (h1 ! k) = frequency (h ! k)"
        using Swap_nth_other [of k i n h] by (simp add: h1_def)
    qed
    show ?thesis using fixup_correct [OF lt _ ex] False len by (simp add: h2_def h1_def)
  qed
  moreover have "length h2 = Suc n" using s len1 by (simp add: heap_struct_def)
  ultimately have "heap_ordered (take n h2)" using ord_n_take [of h2 n] by simp
  then show "heap_ordered (fst (heap_Remove h i))"
    using r by (simp add: butlast_conv_take \<open>length h2 = Suc n\<close>)
qed

lemma heap_Pop_spec:
  assumes io: "indices_ok h" and ne: "h \<noteq> []"
  shows "entryPair (snd (heap_Pop h)) = entryPair (h ! 0)"
    and "mset (map entryPair (fst (heap_Pop h))) + {#entryPair (h ! 0)#}
         = mset (map entryPair h)"
    and "indices_ok (fst (heap_Pop h))"
    and "heap_ordered h \<Longrightarrow> heap_ordered (fst (heap_Pop h))"
proof -
  define n where "n = length h - 1"
  have len: "length h = Suc n" using ne by (simp add: n_def)
  define h1 where "h1 = lfuHeap_Swap h 0 n"
  define h2 where "h2 = fst (heap_down_loop h1 0 n)"
  have r: "heap_Pop h = (butlast h2, last h2)"
    by (simp add: heap_Pop_def h2_def h1_def n_def lfuHeap_Pop_def heap_down_def Let_def
        split: prod.splits)
  have nl: "n < length h" and zl: "0 < length h" using len by simp_all
  have s1: "heap_struct (mset (map entryPair h)) n h1 h1"
    using heap_struct_refl [of h1 n] indices_ok_Swap [OF zl nl io] mset_Swap [OF zl nl]
    by (simp add: h1_def)
  have l1: "length h1 = Suc n" using len by (simp add: h1_def)
  have s: "heap_struct (mset (map entryPair h)) n h1 h2"
  proof (cases "n = 0")
    case True
    have "heap_down_loop h1 0 0 = (h1, 0)"
      by (subst heap_down_loop.simps) (simp add: Let_def)
    then show ?thesis using s1 True by (simp add: h2_def)
  next
    case False
    then show ?thesis
      using heap_down_loop_struct [of 0 n h1, OF _ _ s1] l1 by (simp add: h2_def)
  qed
  have last1: "entryPair (h1 ! n) = entryPair (h ! 0)"
    using Swap_nth [OF zl nl nl] by (auto simp: h1_def entryPair_def)
  show "entryPair (snd (heap_Pop h)) = entryPair (h ! 0)"
    using struct_pop(1) [OF s l1] last1 r by simp
  show "mset (map entryPair (fst (heap_Pop h))) + {#entryPair (h ! 0)#}
         = mset (map entryPair h)"
    using struct_pop(2) [OF s l1] last1 r by simp
  show "indices_ok (fst (heap_Pop h))"
    using struct_pop(3) [OF s l1] r by simp
  assume o: "heap_ordered h"
  have "ord_n h2 n"
  proof (cases "n = 0")
    case True
    then show ?thesis by (simp add: ord_n_def)
  next
    case False
    then have lt: "0 < n" by simp
    have ex: "ord_except h1 n 0"
    proof (rule ord_except_of_ord [of h "Suc n"])
      show "ord_n h (Suc n)" using o len by (simp add: heap_ordered_iff)
    next
      fix k assume "k < n" "k \<noteq> 0"
      then show "k < Suc n \<and> frequency (h1 ! k) = frequency (h ! k)"
        using Swap_nth_other [of k 0 n h] by (simp add: h1_def)
    qed
    obtain h' i' where d: "heap_down_loop h1 0 n = (h', i')" by force
    have "(i' = 0 \<and> h' = h1 \<and> children_ok h1 n 0) \<or> (0 < i' \<and> ord_n h' n)"
      using down_correct [OF lt _ ex] l1 d by simp
    then have "ord_n h' n"
      using ord_n_from_except [OF ex] by auto
    then show ?thesis using d by (simp add: h2_def)
  qed
  moreover have l2: "length h2 = Suc n" using s l1 by (simp add: heap_struct_def)
  ultimately have "heap_ordered (take n h2)" using ord_n_take [of h2 n] by simp
  then show "heap_ordered (fst (heap_Pop h))"
    using r by (simp add: butlast_conv_take l2)
qed


lemma map_entryKey_pairs: "map entryKey h = map fst (map entryPair h)"
  by (simp add: entryPair_def comp_def)

lemma keys_of_pairs: "mset (map entryKey h) = image_mset fst (mset (map entryPair h))"
  by (simp add: entryPair_def comp_def multiset.map_comp)

lemma cacheEntry_Some:
  "key \<in> set (map entryKey h) \<Longrightarrow> \<exists>e. cacheEntry h key = Some e"
  by (cases "cacheEntry h key") (auto simp: cacheEntry_def find_None_iff)

lemma cacheEntry_pos:
  assumes "indices_ok h" "cacheEntry h key = Some e"
  shows "heapIndex e < length h \<and> h ! heapIndex e = e \<and> entryKey e = key"
proof -
  obtain i where i: "i < length h" "entryKey (h ! i) = key" "e = h ! i"
    using assms(2) by (auto simp: cacheEntry_def find_Some_iff)
  then have "heapIndex e = i" using assms(1) by (simp add: indices_ok_iff)
  then show ?thesis using i by simp
qed

lemma incrementFrequency_eq:
  "distinct (map entryKey h) \<Longrightarrow> p < length h \<Longrightarrow> entryKey (h ! p) = key \<Longrightarrow>
   incrementFrequency key h = h[p := (h ! p)\<lparr>frequency := wrapInt (frequency (h ! p) + 1)\<rparr>]"
proof (induction h arbitrary: p)
  case Nil
  then show ?case by simp
next
  case (Cons e es)
  show ?case
  proof (cases p)
    case 0
    then show ?thesis using Cons.prems by simp
  next
    case (Suc q)
    then have "es ! q \<in> set es" using Cons.prems by simp
    then have "entryKey (es ! q) \<in> entryKey ` set es" by (rule imageI)
    then have "entryKey e \<noteq> key" using Cons.prems Suc by auto
    then show ?thesis using Cons.IH [of q] Cons.prems Suc by simp
  qed
qed

lemma frequency_lookup:
  assumes "distinct (map entryKey h)"
  shows "map_option frequency (cacheEntry h key) = Some n
         \<longleftrightarrow> (key, n) \<in> set (map entryPair h)"
proof
  assume "map_option frequency (cacheEntry h key) = Some n"
  then obtain e where e: "cacheEntry h key = Some e" "frequency e = n" by auto
  then obtain i where "i < length h" "entryKey (h ! i) = key" "e = h ! i"
    by (auto simp: cacheEntry_def find_Some_iff)
  then have "e \<in> set h" "entryPair e = (key, n)" using e by (auto simp: entryPair_def)
  then show "(key, n) \<in> set (map entryPair h)" by force
next
  assume "(key, n) \<in> set (map entryPair h)"
  then obtain e' where e': "e' \<in> set h" "entryKey e' = key" "frequency e' = n"
    by (auto simp: entryPair_def)
  then obtain e where e: "cacheEntry h key = Some e"
    using cacheEntry_Some [of key h] by force
  then obtain i where "i < length h" "entryKey (h ! i) = key" "e = h ! i"
    by (auto simp: cacheEntry_def find_Some_iff)
  then have "e \<in> set h" "entryKey e = key" by auto
  then have "e = e'"
    using assms e' by (auto simp: distinct_map inj_on_def)
  then show "map_option frequency (cacheEntry h key) = Some n" using e e' by simp
qed

section \<open>Properties of the policies and the facade\<close>

lemma mset_remove_distinct:
  assumes "mset xs + {#x#} = mset ys" "distinct ys"
  shows "distinct xs" and "x \<notin> set xs" and "set xs = set ys - {x}"
proof -
  have m: "mset (x # xs) = mset ys" using assms(1) by simp
  then have d: "distinct (x # xs)" using assms(2) mset_eq_imp_distinct_iff by blast
  then show "distinct xs" "x \<notin> set xs" by simp_all
  have "set (x # xs) = set ys" using m by (rule mset_eq_setD)
  then show "set xs = set ys - {x}" using d by auto
qed

lemma keys_of_pairs_im:
  "image_mset fst (image_mset entryPair (mset h)) = image_mset entryKey (mset h)"
  by (simp add: multiset.map_comp comp_def entryPair_def)

lemma keys_remove:
  assumes "mset (map entryPair h') + {#entryPair e#} = mset (map entryPair h)"
    and "distinct (map entryKey h)"
  shows "distinct (map entryKey h')" and "entryKey e \<notin> set (map entryKey h')"
    and "set (map entryKey h') = set (map entryKey h) - {entryKey e}"
proof -
  have "image_mset fst (mset (map entryPair h') + {#entryPair e#})
        = image_mset fst (mset (map entryPair h))"
    using assms(1) by simp
  then have "mset (map entryKey h') + {#entryKey e#} = mset (map entryKey h)"
    by (simp add: keys_of_pairs_im entryPair_def)
  from mset_remove_distinct [OF this assms(2)]
  show "distinct (map entryKey h')" and "entryKey e \<notin> set (map entryKey h')"
    and "set (map entryKey h') = set (map entryKey h) - {entryKey e}" by blast+
qed

lemma keys_same:
  assumes "mset (map entryPair h') = mset (map entryPair h)"
  shows "distinct (map entryKey h') = distinct (map entryKey h)"
    and "set (map entryKey h') = set (map entryKey h)"
proof -
  have "image_mset fst (mset (map entryPair h')) = image_mset fst (mset (map entryPair h))"
    using assms by simp
  then have m: "mset (map entryKey h') = mset (map entryKey h)"
    by (simp add: keys_of_pairs_im)
  show "distinct (map entryKey h') = distinct (map entryKey h)"
    using m by (rule mset_eq_imp_distinct_iff)
  show "set (map entryKey h') = set (map entryKey h)"
    using m by (rule mset_eq_setD)
qed

lemma LFU_inv_New: "LFU_inv (NewLFU capacity)"
  by (simp add: LFU_inv_def NewLFU_def indices_ok_def heap_ordered_def)

lemma LFU_evict_empty:
  "freqHeap l = [] \<Longrightarrow> LFU_evict l = ((0, False), l)"
  by (simp add: LFU_evict_def)

lemma LFU_evict_nonempty:
  assumes inv: "LFU_inv l" and ne: "freqHeap l \<noteq> []"
  shows "\<exists>l'. LFU_evict l = ((entryKey (freqHeap l ! 0), True), l') \<and> LFU_inv l'
           \<and> lfu_cache l' = lfu_cache l - {entryKey (freqHeap l ! 0)}
           \<and> lfu_capacity l' = lfu_capacity l
           \<and> mset (map entryPair (freqHeap l')) + {#entryPair (freqHeap l ! 0)#}
               = mset (map entryPair (freqHeap l))"
proof -
  define h where "h = freqHeap l"
  have io: "indices_ok h" and d: "distinct (map entryKey h)" and o: "heap_ordered h"
    and k: "set (map entryKey h) = lfu_cache l"
    using inv by (simp_all add: LFU_inv_def h_def)
  have hne: "h \<noteq> []" using ne by (simp add: h_def)
  obtain h' e where pop: "heap_Pop h = (h', e)" by force
  have e: "entryPair e = entryPair (h ! 0)"
    and m: "mset (map entryPair h') + {#entryPair (h ! 0)#} = mset (map entryPair h)"
    and io': "indices_ok h'" and o': "heap_ordered h'"
    using heap_Pop_spec [OF io hne] pop o by simp_all
  have ek: "entryKey e = entryKey (h ! 0)" using e by (simp add: entryPair_def)
  define l' where "l' = l\<lparr>freqHeap := h', lfu_cache := lfu_cache l - {entryKey e}\<rparr>"
  have "LFU_evict l = ((entryKey (h ! 0), True), l')"
    using hne pop ek by (simp add: LFU_evict_def h_def l'_def)
  moreover have "LFU_inv l'"
    using keys_remove [OF m d] io' o' k ek by (simp add: LFU_inv_def l'_def)
  ultimately show ?thesis using m ek by (auto simp: l'_def h_def)
qed

lemma LFU_Delete_spec:
  assumes inv: "LFU_inv l"
  shows "LFU_inv (LFU_Delete key l)"
    and "lfu_cache (LFU_Delete key l) = lfu_cache l - {key}"
    and "lfu_capacity (LFU_Delete key l) = lfu_capacity l"
proof -
  define h where "h = freqHeap l"
  have io: "indices_ok h" and d: "distinct (map entryKey h)" and o: "heap_ordered h"
    and k: "set (map entryKey h) = lfu_cache l"
    using inv by (simp_all add: LFU_inv_def h_def)
  have "LFU_inv (LFU_Delete key l) \<and> lfu_cache (LFU_Delete key l) = lfu_cache l - {key}
        \<and> lfu_capacity (LFU_Delete key l) = lfu_capacity l"
  proof (cases "key \<in> lfu_cache l")
    case False
    then show ?thesis using inv by (simp add: LFU_Delete_def)
  next
    case True
    then obtain e where e: "cacheEntry h key = Some e"
      using cacheEntry_Some [of key h] k by auto
    define p where "p = heapIndex e"
    have pl: "p < length h" and hp: "h ! p = e" and ek: "entryKey e = key"
      using cacheEntry_pos [OF io e] by (simp_all add: p_def)
    define h' where "h' = fst (heap_Remove h p)"
    have m: "mset (map entryPair h') + {#entryPair e#} = mset (map entryPair h)"
      and io': "indices_ok h'" and o': "heap_ordered h'"
      using heap_Remove_spec [OF io pl] o hp by (simp_all add: h'_def)
    have eq: "LFU_Delete key l = l\<lparr>freqHeap := h', lfu_cache := lfu_cache l - {key}\<rparr>"
      using True e by (simp add: LFU_Delete_def h_def h'_def p_def)
    show ?thesis
      using keys_remove [OF m d] io' o' k ek by (simp add: eq LFU_inv_def)
  qed
  then show "LFU_inv (LFU_Delete key l)"
    and "lfu_cache (LFU_Delete key l) = lfu_cache l - {key}"
    and "lfu_capacity (LFU_Delete key l) = lfu_capacity l" by simp_all
qed

lemma LFU_push_spec:
  assumes inv: "LFU_inv l" and new: "key \<notin> lfu_cache l"
  defines "l' \<equiv> l\<lparr>freqHeap := heap_Push (freqHeap l)
                                 \<lparr>entryKey = key, frequency = 1, heapIndex = 0\<rparr>,
                   lfu_cache := insert key (lfu_cache l)\<rparr>"
  shows "LFU_inv l'"
    and "mset (map entryPair (freqHeap l')) = mset (map entryPair (freqHeap l)) + {#(key, 1)#}"
proof -
  define h where "h = freqHeap l"
  define x :: "'a lfuEntry" where "x = \<lparr>entryKey = key, frequency = 1, heapIndex = 0\<rparr>"
  have io: "indices_ok h" and d: "distinct (map entryKey h)" and o: "heap_ordered h"
    and k: "set (map entryKey h) = lfu_cache l"
    using inv by (simp_all add: LFU_inv_def h_def)
  have m: "mset (map entryPair (heap_Push h x)) = mset (map entryPair h) + {#entryPair x#}"
    and io': "indices_ok (heap_Push h x)" and o': "heap_ordered (heap_Push h x)"
    using heap_Push_spec [OF io, of x] o by simp_all
  have "image_mset fst (mset (map entryPair (heap_Push h x)))
        = image_mset fst (mset (map entryPair h) + {#entryPair x#})"
    using m by simp
  then have mk: "mset (map entryKey (heap_Push h x)) = mset (key # map entryKey h)"
    by (simp add: keys_of_pairs_im entryPair_def x_def)
  have "distinct (key # map entryKey h)" using d k new by simp
  then have d': "distinct (map entryKey (heap_Push h x))"
    using mk mset_eq_imp_distinct_iff by blast
  have k': "set (map entryKey (heap_Push h x)) = insert key (lfu_cache l)"
    using mset_eq_setD [OF mk] k by simp
  show "LFU_inv l'"
    using d' k' io' o' by (simp add: LFU_inv_def l'_def h_def x_def)
  show "mset (map entryPair (freqHeap l')) = mset (map entryPair (freqHeap l)) + {#(key, 1)#}"
    using m by (simp add: l'_def h_def x_def entryPair_def)
qed

lemma LFU_Put_existing_spec:
  assumes inv: "LFU_inv l" and old: "key \<in> lfu_cache l"
  shows "\<exists>l' n. LFU_Put key l = ((0, False), l') \<and> LFU_inv l'
           \<and> lfu_cache l' = lfu_cache l \<and> lfu_capacity l' = lfu_capacity l
           \<and> LFU_frequency l key = Some n
           \<and> LFU_frequency l' key = Some (wrapInt (n + 1))"
proof -
  define h where "h = freqHeap l"
  have io: "indices_ok h" and d: "distinct (map entryKey h)" and o: "heap_ordered h"
    and k: "set (map entryKey h) = lfu_cache l"
    using inv by (simp_all add: LFU_inv_def h_def)
  obtain e where e: "cacheEntry h key = Some e"
    using cacheEntry_Some [of key h] k old by auto
  define p where "p = heapIndex e"
  have pl: "p < length h" and hp: "h ! p = e" and ek: "entryKey e = key"
    using cacheEntry_pos [OF io e] by (simp_all add: p_def)
  define e' where "e' = e\<lparr>frequency := wrapInt (frequency e + 1)\<rparr>"
  define h1 where "h1 = h[p := e']"
  have inc: "incrementFrequency key h = h1"
    using incrementFrequency_eq [OF d pl] hp ek by (simp add: h1_def e'_def)
  have k1: "map entryKey h1 = map entryKey h"
    using pl hp ek by (simp add: h1_def e'_def map_update list_update_same_conv)
  have io1: "indices_ok h1"
    using io pl hp by (auto simp: indices_ok_iff h1_def e'_def nth_list_update)
  have pl1: "p < length h1" using pl by (simp add: h1_def)
  have ex: "ord_except h1 (length h1) p"
  proof (rule ord_except_of_ord [of h "length h"])
    show "ord_n h (length h)" using o by (simp add: heap_ordered_iff)
  next
    fix c assume "c < length h1" "c \<noteq> p"
    then show "c < length h \<and> frequency (h1 ! c) = frequency (h ! c)"
      by (simp add: h1_def)
  qed
  define h2 where "h2 = heap_Fix h1 p"
  have m2: "mset (map entryPair h2) = mset (map entryPair h1)"
    and io2: "indices_ok h2" and o2: "heap_ordered h2"
    using heap_Fix_spec [OF io1 pl1] ex by (simp_all add: h2_def)
  have d2: "distinct (map entryKey h2)" and k2: "set (map entryKey h2) = lfu_cache l"
    using keys_same [OF m2] k1 d k by simp_all
  define l' where "l' = l\<lparr>freqHeap := h2\<rparr>"
  have put: "LFU_Put key l = ((0, False), l')"
    using old e inc by (simp add: LFU_Put_def h_def l'_def h2_def p_def)
  have inv': "LFU_inv l'" using d2 k2 io2 o2 by (simp add: LFU_inv_def l'_def)
  have f0: "LFU_frequency l key = Some (frequency e)"
    using e by (simp add: LFU_frequency_def h_def)
  have "entryPair e' \<in> set (map entryPair h1)"
    using pl by (simp add: h1_def map_update set_update_memI)
  then have "(key, wrapInt (frequency e + 1)) \<in> set (map entryPair h1)"
    using ek by (simp add: e'_def entryPair_def)
  then have "(key, wrapInt (frequency e + 1)) \<in> set (map entryPair h2)"
    using mset_eq_setD [OF m2] by simp
  then have f1: "LFU_frequency l' key = Some (wrapInt (frequency e + 1))"
    using frequency_lookup [OF d2] by (simp add: LFU_frequency_def l'_def)
  show ?thesis using put inv' f0 f1 by (auto simp: l'_def)
qed

lemma LFU_cache_heap:
  "LFU_inv l \<Longrightarrow> finite (lfu_cache l) \<and> card (lfu_cache l) = length (freqHeap l)"
proof -
  assume "LFU_inv l"
  then have k: "set (map entryKey (freqHeap l)) = lfu_cache l"
    and d: "distinct (map entryKey (freqHeap l))" by (simp_all add: LFU_inv_def)
  have "card (set (map entryKey (freqHeap l))) = length (map entryKey (freqHeap l))"
    using d by (rule distinct_card)
  then show ?thesis using k by (metis List.finite_set length_map)
qed


lemma LFU_Put_new_spec:
  assumes inv: "LFU_inv l" and new: "key \<notin> lfu_cache l"
    and put: "LFU_Put key l = ((ek, ev), l')"
  shows "LFU_inv l' \<and> lfu_capacity l' = lfu_capacity l
         \<and> (ev \<longrightarrow> ek \<in> lfu_cache l \<and> lfu_capacity l \<le> int (card (lfu_cache l))
                   \<and> lfu_cache l' = insert key (lfu_cache l - {ek})
                   \<and> LFU_evict l = ((ek, True), snd (LFU_evict l)))
         \<and> (\<not> ev \<longrightarrow> ek = 0 \<and> lfu_cache l' = insert key (lfu_cache l)
                   \<and> (int (card (lfu_cache l)) < lfu_capacity l \<or> lfu_cache l = {}))
         \<and> LFU_frequency l' key = Some 1"
proof -
  define r where "r = (if int (card (lfu_cache l)) \<ge> lfu_capacity l
                       then LFU_evict l else ((0, False), l))"
  obtain l1 where r: "r = ((ek, ev), l1)"
    and l': "l' = l1\<lparr>freqHeap := heap_Push (freqHeap l1)
                                 \<lparr>entryKey = key, frequency = 1, heapIndex = 0\<rparr>,
                     lfu_cache := insert key (lfu_cache l1)\<rparr>"
    using put new by (auto simp: LFU_Put_def r_def split: prod.splits)
  have k: "set (map entryKey (freqHeap l)) = lfu_cache l"
    using inv by (simp add: LFU_inv_def)
  have l1: "LFU_inv l1 \<and> lfu_capacity l1 = lfu_capacity l
        \<and> (ev \<longrightarrow> ek \<in> lfu_cache l \<and> lfu_capacity l \<le> int (card (lfu_cache l))
                   \<and> lfu_cache l1 = lfu_cache l - {ek}
                   \<and> LFU_evict l = ((ek, True), snd (LFU_evict l)))
        \<and> (\<not> ev \<longrightarrow> ek = 0 \<and> lfu_cache l1 = lfu_cache l
                   \<and> (int (card (lfu_cache l)) < lfu_capacity l \<or> lfu_cache l = {}))"
  proof (cases "int (card (lfu_cache l)) \<ge> lfu_capacity l")
    case False
    then show ?thesis using r inv by (simp add: r_def)
  next
    case True
    then have e: "LFU_evict l = ((ek, ev), l1)" using r by (simp add: r_def)
    show ?thesis
    proof (cases "freqHeap l = []")
      case True
      then have "lfu_cache l = {}" using k by simp
      then show ?thesis using e LFU_evict_empty [OF True] inv by auto
    next
      case False
      then have "entryKey (freqHeap l ! 0) \<in> lfu_cache l" using k by force
      then show ?thesis
        using LFU_evict_nonempty [OF inv False] e True by auto
    qed
  qed
  then have inv1: "LFU_inv l1" and new1: "key \<notin> lfu_cache l1" using new by auto
  have inv': "LFU_inv l'"
    and m: "mset (map entryPair (freqHeap l')) = mset (map entryPair (freqHeap l1)) + {#(key, 1)#}"
    using LFU_push_spec [OF inv1 new1] by (simp_all add: l')
  have d': "distinct (map entryKey (freqHeap l'))" using inv' by (simp add: LFU_inv_def)
  have "(key, 1) \<in># mset (map entryPair (freqHeap l'))" using m by simp
  then have "(key, 1) \<in> set (map entryPair (freqHeap l'))" by (simp only: set_mset_mset)
  then have f: "LFU_frequency l' key = Some 1"
    using frequency_lookup [OF d', of key 1] by (simp add: LFU_frequency_def)
  show ?thesis using l1 inv' f by (auto simp: l')
qed

lemma FIFO_inv_New: "FIFO_inv (NewFIFO capacity)"
  by (simp add: FIFO_inv_def NewFIFO_def)

lemma lru_inv_New: "lru_inv (NewLRU capacity)"
  by (simp add: lru_inv_def NewLRU_def)

lemma FIFO_cache_list:
  "FIFO_inv f \<Longrightarrow> finite (fifo_cache f) \<and> card (fifo_cache f) = length (fifo_list f)"
  unfolding FIFO_inv_def by (metis List.finite_set distinct_card)

lemma lru_cache_list:
  "lru_inv l \<Longrightarrow> finite (lru_cache l) \<and> card (lru_cache l) = length (lru_list l)"
  unfolding lru_inv_def by (metis List.finite_set distinct_card)

lemma FIFO_evict_empty: "fifo_list f = [] \<Longrightarrow> FIFO_evict f = ((0, False), f)"
  by (simp add: FIFO_evict_def)

lemma FIFO_evict_nonempty:
  assumes inv: "FIFO_inv f" and ne: "fifo_list f \<noteq> []"
  shows "\<exists>f'. FIFO_evict f = ((hd (fifo_list f), True), f') \<and> FIFO_inv f'
           \<and> fifo_cache f' = fifo_cache f - {hd (fifo_list f)}
           \<and> hd (fifo_list f) \<in> fifo_cache f
           \<and> fifo_capacity f' = fifo_capacity f"
proof -
  obtain k rest where l: "fifo_list f = k # rest" using ne by (cases "fifo_list f") auto
  have "set (k # rest) = fifo_cache f" "distinct (k # rest)"
    using inv l by (simp_all add: FIFO_inv_def)
  then have "set rest = fifo_cache f - {k}" "distinct rest" "k \<in> fifo_cache f" by auto
  then show ?thesis using l by (simp add: FIFO_evict_def FIFO_inv_def)
qed

lemma lru_evict_empty: "lru_list l = [] \<Longrightarrow> lru_evict l = ((0, False), l)"
  by (simp add: lru_evict_def)

lemma lru_evict_nonempty:
  assumes inv: "lru_inv l" and ne: "lru_list l \<noteq> []"
  shows "\<exists>l'. lru_evict l = ((last (lru_list l), True), l') \<and> lru_inv l'
           \<and> lru_cache l' = lru_cache l - {last (lru_list l)}
           \<and> last (lru_list l) \<in> lru_cache l
           \<and> lru_capacity l' = lru_capacity l"
proof -
  obtain ys k where l: "lru_list l = ys @ [k]" using ne by (cases "lru_list l" rule: rev_cases) auto
  have "set (ys @ [k]) = lru_cache l" "distinct (ys @ [k])"
    using inv l by (simp_all add: lru_inv_def)
  then have "set ys = lru_cache l - {k}" "distinct ys" "k \<in> lru_cache l" by auto
  then show ?thesis using l by (simp add: lru_evict_def lru_inv_def Let_def)
qed

lemma FIFO_Put_spec:
  assumes inv: "FIFO_inv f" and put: "FIFO_Put key f = ((ek, ev), f')"
  shows "FIFO_inv f' \<and> fifo_capacity f' = fifo_capacity f
         \<and> (key \<in> fifo_cache f \<longrightarrow> \<not> ev \<and> ek = 0 \<and> fifo_cache f' = fifo_cache f)
         \<and> (key \<notin> fifo_cache f \<longrightarrow>
              (ev \<longrightarrow> ek \<in> fifo_cache f \<and> fifo_capacity f \<le> int (card (fifo_cache f))
                      \<and> fifo_cache f' = insert key (fifo_cache f - {ek}))
            \<and> (\<not> ev \<longrightarrow> ek = 0 \<and> fifo_cache f' = insert key (fifo_cache f)
                      \<and> (int (card (fifo_cache f)) < fifo_capacity f \<or> fifo_cache f = {})))"
proof (cases "key \<in> fifo_cache f")
  case True
  then show ?thesis using inv put by (simp add: FIFO_Put_def)
next
  case new: False
  have c: "card (fifo_cache f) = length (fifo_list f)" using FIFO_cache_list [OF inv] by simp
  define r where "r = (if int (length (fifo_list f)) \<ge> fifo_capacity f
                       then FIFO_evict f else ((0, False), f))"
  obtain f1 where r: "r = ((ek, ev), f1)"
    and f': "f' = f1\<lparr>fifo_list := fifo_list f1 @ [key],
                     fifo_cache := insert key (fifo_cache f1)\<rparr>"
    using put new by (auto simp: FIFO_Put_def r_def split: prod.splits)
  have f1: "FIFO_inv f1 \<and> fifo_capacity f1 = fifo_capacity f
        \<and> (ev \<longrightarrow> ek \<in> fifo_cache f \<and> fifo_capacity f \<le> int (card (fifo_cache f))
                   \<and> fifo_cache f1 = fifo_cache f - {ek})
        \<and> (\<not> ev \<longrightarrow> ek = 0 \<and> fifo_cache f1 = fifo_cache f
                   \<and> (int (card (fifo_cache f)) < fifo_capacity f \<or> fifo_cache f = {}))"
  proof (cases "int (length (fifo_list f)) \<ge> fifo_capacity f")
    case False
    then show ?thesis using r inv c by (simp add: r_def)
  next
    case True
    then have e: "FIFO_evict f = ((ek, ev), f1)" using r by (simp add: r_def)
    show ?thesis
    proof (cases "fifo_list f = []")
      case True
      then have "fifo_cache f = {}" using inv by (simp add: FIFO_inv_def)
      then show ?thesis using e FIFO_evict_empty [OF True] inv by auto
    next
      case False
      then show ?thesis
        using FIFO_evict_nonempty [OF inv False] e True c by auto
    qed
  qed
  then have "FIFO_inv f1" "key \<notin> fifo_cache f1" using new by auto
  then have "FIFO_inv f'" by (auto simp: FIFO_inv_def f')
  then show ?thesis using f1 new by (auto simp: f')
qed

lemma lru_Put_spec:
  assumes inv: "lru_inv l" and put: "lru_Put key l = ((ek, ev), l')"
  shows "lru_inv l' \<and> lru_capacity l' = lru_capacity l
         \<and> (key \<in> lru_cache l \<longrightarrow> \<not> ev \<and> ek = 0 \<and> lru_cache l' = lru_cache l)
         \<and> (key \<notin> lru_cache l \<longrightarrow>
              (ev \<longrightarrow> ek \<in> lru_cache l \<and> lru_capacity l \<le> int (card (lru_cache l))
                      \<and> lru_cache l' = insert key (lru_cache l - {ek}))
            \<and> (\<not> ev \<longrightarrow> ek = 0 \<and> lru_cache l' = insert key (lru_cache l)
                      \<and> (int (card (lru_cache l)) < lru_capacity l \<or> lru_cache l = {})))"
proof (cases "key \<in> lru_cache l")
  case True
  then have "l' = l\<lparr>lru_list := key # remove1 key (lru_list l)\<rparr>" "\<not> ev" "ek = 0"
    using put by (simp_all add: lru_Put_def)
  moreover have "set (key # remove1 key (lru_list l)) = lru_cache l"
    "distinct (key # remove1 key (lru_list l))"
    using inv True by (auto simp: lru_inv_def)
  ultimately show ?thesis using True by (simp add: lru_inv_def)
next
  case new: False
  have c: "card (lru_cache l) = length (lru_list l)" using lru_cache_list [OF inv] by simp
  define r where "r = (if int (length (lru_list l)) \<ge> lru_capacity l
                       then lru_evict l else ((0, False), l))"
  obtain l1 where r: "r = ((ek, ev), l1)"
    and l': "l' = l1\<lparr>lru_list := key # lru_list l1,
                     lru_cache := insert key (lru_cache l1)\<rparr>"
    using put new by (auto simp: lru_Put_def r_def split: prod.splits)
  have l1: "lru_inv l1 \<and> lru_capacity l1 = lru_capacity l
        \<and> (ev \<longrightarrow> ek \<in> lru_cache l \<and> lru_capacity l \<le> int (card (lru_cache l))
                   \<and> lru_cache l1 = lru_cache l - {ek})
        \<and> (\<not> ev \<longrightarrow> ek = 0 \<and> lru_cache l1 = lru_cache l
                   \<and> (int (card (lru_cache l)) < lru_capacity l \<or> lru_cache l = {}))"
  proof (cases "int (length (lru_list l)) \<ge> lru_capacity l")
    case False
    then show ?thesis using r inv c by (simp add: r_def)
  next
    case True
    then have e: "lru_evict l = ((ek, ev), l1)" using r by (simp add: r_def)
    show ?thesis
    proof (cases "lru_list l = []")
      case True
      then have "lru_cache l = {}" using inv by (simp add: lru_inv_def)
      then show ?thesis using e lru_evict_empty [OF True] inv by auto
    next
      case False
      then show ?thesis
        using lru_evict_nonempty [OF inv False] e True c by auto
    qed
  qed
  then have "lru_inv l1" "key \<notin> lru_cache l1" using new by auto
  then have "lru_inv l'" by (auto simp: lru_inv_def l')
  then show ?thesis using l1 new by (auto simp: l')
qed

lemma Policy_Size_card: "Policy_Size p = int (card (Policy_keys p))"
  by (cases p) (simp_all add: FIFO_Size_def lru_Size_def LFU_Size_def)

lemma Policy_keys_finite: "Policy_inv p \<Longrightarrow> finite (Policy_keys p)"
  by (cases p) (simp_all add: FIFO_cache_list lru_cache_list LFU_cache_heap)

lemma Policy_Put_spec:
  assumes inv: "Policy_inv p" and put: "Policy_Put key p = ((ek, ev), p')"
  shows "Policy_inv p' \<and> Policy_capacity p' = Policy_capacity p
         \<and> (key \<in> Policy_keys p \<longrightarrow> \<not> ev \<and> ek = 0 \<and> Policy_keys p' = Policy_keys p)
         \<and> (key \<notin> Policy_keys p \<longrightarrow>
              (ev \<longrightarrow> ek \<in> Policy_keys p \<and> Policy_capacity p \<le> Policy_Size p
                      \<and> Policy_keys p' = insert key (Policy_keys p - {ek}))
            \<and> (\<not> ev \<longrightarrow> ek = 0 \<and> Policy_keys p' = insert key (Policy_keys p)
                      \<and> (Policy_Size p < Policy_capacity p \<or> Policy_keys p = {})))"
proof (cases p)
  case (FIFOPolicy f)
  obtain f' where "FIFO_Put key f = ((ek, ev), f')" "p' = FIFOPolicy f'"
    using put FIFOPolicy by (auto split: prod.splits)
  then show ?thesis
    using FIFO_Put_spec [of f key ek ev f'] inv FIFOPolicy by (simp add: FIFO_Size_def)
next
  case (LRUPolicy l)
  obtain l' where "lru_Put key l = ((ek, ev), l')" "p' = LRUPolicy l'"
    using put LRUPolicy by (auto split: prod.splits)
  then show ?thesis
    using lru_Put_spec [of l key ek ev l'] inv LRUPolicy by (simp add: lru_Size_def)
next
  case (LFUPolicy l)
  obtain l' where l': "LFU_Put key l = ((ek, ev), l')" "p' = LFUPolicy l'"
    using put LFUPolicy by (auto split: prod.splits)
  have i: "LFU_inv l" using inv LFUPolicy by simp
  show ?thesis
  proof (cases "key \<in> lfu_cache l")
    case True
    then show ?thesis
      using LFU_Put_existing_spec [OF i True] l' LFUPolicy by auto
  next
    case False
    then show ?thesis
      using LFU_Put_new_spec [OF i False l'(1)] l' LFUPolicy by (simp add: LFU_Size_def)
  qed
qed

lemma FIFO_Delete_spec:
  "FIFO_inv f \<Longrightarrow> FIFO_inv (FIFO_Delete key f)
     \<and> fifo_cache (FIFO_Delete key f) = fifo_cache f - {key}
     \<and> fifo_capacity (FIFO_Delete key f) = fifo_capacity f"
  by (auto simp: FIFO_inv_def FIFO_Delete_def)

lemma lru_Delete_spec:
  "lru_inv l \<Longrightarrow> lru_inv (lru_Delete key l)
     \<and> lru_cache (lru_Delete key l) = lru_cache l - {key}
     \<and> lru_capacity (lru_Delete key l) = lru_capacity l"
  by (auto simp: lru_inv_def lru_Delete_def)

lemma Policy_Delete_spec:
  "Policy_inv p \<Longrightarrow> Policy_inv (Policy_Delete key p)
     \<and> Policy_keys (Policy_Delete key p) = Policy_keys p - {key}
     \<and> Policy_capacity (Policy_Delete key p) = Policy_capacity p"
  by (cases p) (simp_all add: FIFO_Delete_spec lru_Delete_spec LFU_Delete_spec)

lemma Policy_Reset_spec:
  "Policy_inv (Policy_Reset p) \<and> Policy_keys (Policy_Reset p) = {}
     \<and> Policy_capacity (Policy_Reset p) = Policy_capacity p"
  by (cases p)
    (simp_all add: FIFO_inv_def FIFO_Reset_def lru_inv_def lru_Reset_def
      LFU_inv_def LFU_Reset_def indices_ok_def heap_ordered_def)

lemma Policy_Evict_empty:
  assumes inv: "Policy_inv p" and e: "Policy_keys p = {}"
  shows "Policy_Evict p = ((0, False), p)"
proof (cases p)
  case (FIFOPolicy f)
  then have "fifo_list f = []" using inv e by (simp add: FIFO_inv_def)
  then show ?thesis using FIFOPolicy by (simp add: FIFO_Evict_def FIFO_evict_empty)
next
  case (LRUPolicy l)
  then have "lru_list l = []" using inv e by (simp add: lru_inv_def)
  then show ?thesis using LRUPolicy by (simp add: lru_Evict_def lru_evict_empty)
next
  case (LFUPolicy l)
  then have "freqHeap l = []" using inv e by (simp add: LFU_inv_def)
  then show ?thesis using LFUPolicy by (simp add: LFU_Evict_def LFU_evict_empty)
qed

lemma Update_items:
  "threadSafeMap_Update key obj s = Inr s' \<Longrightarrow> items s' = AList.update key obj (items s)"
  by (auto simp: threadSafeMap_Update_def Let_def split: sum.splits)

lemma Delete_items:
  "threadSafeMap_Delete key s = Inr s' \<Longrightarrow> items s' = AList.delete key (items s)"
proof -
  assume a: "threadSafeMap_Delete key s = Inr s'"
  show ?thesis
  proof (cases "map_of (items s) key")
    case None
    then have "key \<notin> fst ` set (items s)" by (simp add: map_of_eq_None_iff)
    then have "AList.delete key (items s) = items s" by (simp add: delete_id)
    then show ?thesis using a None by (simp add: threadSafeMap_Delete_def)
  next
    case (Some x)
    then show ?thesis using a by (auto simp: threadSafeMap_Delete_def split: sum.splits)
  qed
qed

lemma keys_update: "fst ` set (AList.update k v al) = insert k (fst ` set al)"
  by (simp add: dom_update)

lemma keys_delete: "fst ` set (AList.delete k al) = fst ` set al - {k}"
  by (induction al) auto

lemma emptyPolicy_inv: "emptyPolicy p \<Longrightarrow> Policy_inv p \<and> Policy_keys p = {}"
  unfolding emptyPolicy_def
proof (elim disjE)
  assume "p = FIFOPolicy (NewFIFO (Policy_capacity p))"
  then obtain c where "p = FIFOPolicy (NewFIFO c)" ..
  then show ?thesis by (simp add: FIFO_inv_New) (simp add: NewFIFO_def)
next
  assume "p = LRUPolicy (NewLRU (Policy_capacity p))"
  then obtain c where "p = LRUPolicy (NewLRU c)" ..
  then show ?thesis by (simp add: lru_inv_New) (simp add: NewLRU_def)
next
  assume "p = LFUPolicy (NewLFU (Policy_capacity p))"
  then obtain c where "p = LFUPolicy (NewLFU c)" ..
  then show ?thesis by (simp add: LFU_inv_New) (simp add: NewLFU_def)
qed

lemma cache_inv_New: "emptyPolicy p \<Longrightarrow> cache_inv (NewEvictionCache kf p ixrs)"
  using emptyPolicy_inv [of p]
  by (simp add: cache_inv_def NewEvictionCache_def NewThreadSafeStore_def)

lemma Add_spec:
  assumes inv: "cache_inv c" and add: "evictionCache_Add obj c = Inr (err, c')"
  shows "cache_inv c'
         \<and> Policy_capacity (evictionPolicy c') = Policy_capacity (evictionPolicy c)
         \<and> (1 \<le> Policy_capacity (evictionPolicy c)
              \<and> Policy_Size (evictionPolicy c) \<le> Policy_capacity (evictionPolicy c)
            \<longrightarrow> Policy_Size (evictionPolicy c') \<le> Policy_capacity (evictionPolicy c))"
proof (cases "keyFunc c obj")
  case (Inl e)
  then show ?thesis using add inv by (simp add: evictionCache_Add_def)
next
  case (Inr key)
  define p where "p = evictionPolicy c"
  obtain ek ev p' where put: "Policy_Put key p = ((ek, ev), p')"
    by (metis surj_pair)
  obtain s1 where s1: "(if ev then threadSafeMap_Delete ek (store c) else Inr (store c)) = Inr s1"
    using add Inr put by (auto simp: evictionCache_Add_def p_def split: sum.splits)
  obtain s2 where s2: "threadSafeMap_Add key obj s1 = Inr s2"
    and c': "c' = c\<lparr>store := s2, evictionPolicy := p'\<rparr>"
    using add Inr put s1 by (auto simp: evictionCache_Add_def p_def split: sum.splits)
  have pi: "Policy_inv p" and d: "distinct (map fst (items (store c)))"
    and k: "fst ` set (items (store c)) = Policy_keys p"
    using inv by (simp_all add: cache_inv_def p_def)
  note ps = Policy_Put_spec [OF pi put]
  have i1: "items s1 = (if ev then AList.delete ek (items (store c)) else items (store c))"
    using s1 Delete_items [of ek "store c" s1] by (auto split: if_splits)
  have i2: "items s2 = AList.update key obj (items s1)"
    using s2 Update_items [of key obj s1 s2] by (simp add: threadSafeMap_Add_def)
  have d2: "distinct (map fst (items s2))"
    using d by (simp add: i1 i2 distinct_update distinct_delete)
  have k1: "fst ` set (items s1) = (if ev then Policy_keys p - {ek} else Policy_keys p)"
    using k by (simp add: i1 keys_delete)
  have k2': "fst ` set (items s2) = insert key (if ev then Policy_keys p - {ek} else Policy_keys p)"
    using k1 by (simp only: i2 keys_update)
  have k2: "fst ` set (items s2) = Policy_keys p'"
  proof (cases "key \<in> Policy_keys p")
    case True
    then have "\<not> ev" "Policy_keys p' = Policy_keys p" using ps by simp_all
    then show ?thesis using k2' True by auto
  next
    case False
    then show ?thesis using ps k2' by (cases ev) simp_all
  qed
  have inv': "cache_inv c'" using ps d2 k2 by (simp add: cache_inv_def c')
  have fin: "finite (Policy_keys p)" using pi by (rule Policy_keys_finite)
  have size: "Policy_Size p' \<le> Policy_capacity p"
    if "1 \<le> Policy_capacity p" "Policy_Size p \<le> Policy_capacity p"
  proof (cases "key \<in> Policy_keys p")
    case True
    then show ?thesis using ps that by (simp add: Policy_Size_card)
  next
    case new: False
    show ?thesis
    proof (cases ev)
      case True
      then have "ek \<in> Policy_keys p" "Policy_keys p' = insert key (Policy_keys p - {ek})"
        using ps new by simp_all
      moreover have "Suc (card (Policy_keys p - {ek})) = card (Policy_keys p)"
        using fin \<open>ek \<in> Policy_keys p\<close> by (rule card_Suc_Diff1)
      moreover have "card (insert key (Policy_keys p - {ek})) = Suc (card (Policy_keys p - {ek}))"
        using fin new by simp
      ultimately have "card (Policy_keys p') = card (Policy_keys p)" by simp
      then show ?thesis using that by (simp add: Policy_Size_card)
    next
      case False
      then have kp: "Policy_keys p' = insert key (Policy_keys p)"
        and c: "Policy_Size p < Policy_capacity p \<or> Policy_keys p = {}"
        using ps new by simp_all
      have "card (Policy_keys p') = Suc (card (Policy_keys p))"
        using kp fin new by simp
      then show ?thesis using that c by (auto simp: Policy_Size_card)
    qed
  qed
  show ?thesis using inv' ps size by (simp add: c' p_def)
qed

lemma Delete_spec:
  assumes inv: "cache_inv c" and del: "evictionCache_Delete obj c = Inr (err, c')"
  shows "cache_inv c'
         \<and> Policy_capacity (evictionPolicy c') = Policy_capacity (evictionPolicy c)
         \<and> Policy_Size (evictionPolicy c') \<le> Policy_Size (evictionPolicy c)"
proof (cases "keyFunc c obj")
  case (Inl e)
  then show ?thesis using del inv by (simp add: evictionCache_Delete_def)
next
  case (Inr key)
  define p where "p = evictionPolicy c"
  obtain s1 where s1: "threadSafeMap_Delete key (store c) = Inr s1"
    and c': "c' = c\<lparr>store := s1, evictionPolicy := Policy_Delete key p\<rparr>"
    using del Inr by (auto simp: evictionCache_Delete_def p_def Let_def split: sum.splits)
  have pi: "Policy_inv p" and d: "distinct (map fst (items (store c)))"
    and k: "fst ` set (items (store c)) = Policy_keys p"
    using inv by (simp_all add: cache_inv_def p_def)
  note ps = Policy_Delete_spec [OF pi, of key]
  have i1: "items s1 = AList.delete key (items (store c))"
    using s1 by (rule Delete_items)
  have "cache_inv c'"
    using ps d k by (simp add: cache_inv_def c' i1 distinct_delete keys_delete)
  moreover have "card (Policy_keys p - {key}) \<le> card (Policy_keys p)"
    using Policy_keys_finite [OF pi] by (simp add: card_Diff1_le)
  ultimately show ?thesis using ps by (simp add: c' p_def Policy_Size_card)
qed

lemma cache_inv_size:
  "cache_inv c \<Longrightarrow> threadSafeMap_Size (store c) = Policy_Size (evictionPolicy c)"
proof -
  assume "cache_inv c"
  then have d: "distinct (map fst (items (store c)))"
    and k: "fst ` set (items (store c)) = Policy_keys (evictionPolicy c)"
    by (simp_all add: cache_inv_def)
  have "card (set (map fst (items (store c)))) = length (map fst (items (store c)))"
    using d by (rule distinct_card)
  then show ?thesis using k by (simp add: threadSafeMap_Size_def Policy_Size_card)
qed

lemma applyCacheOps_inv:
  "cache_inv c \<Longrightarrow> applyCacheOps ops c = Inr c' \<Longrightarrow>
   cache_inv c' \<and> Policy_capacity (evictionPolicy c') = Policy_capacity (evictionPolicy c)
   \<and> (1 \<le> Policy_capacity (evictionPolicy c)
        \<and> Policy_Size (evictionPolicy c) \<le> Policy_capacity (evictionPolicy c)
      \<longrightarrow> Policy_Size (evictionPolicy c') \<le> Policy_capacity (evictionPolicy c))"
proof (induction ops arbitrary: c)
  case Nil
  then show ?case by simp
next
  case (Cons op ops)
  obtain err c1 where step: "applyCacheOp op c = Inr (err, c1)"
    and rest: "applyCacheOps ops c1 = Inr c'"
    using Cons.prems(2) by (auto split: sum.splits)
  have c1: "cache_inv c1
      \<and> Policy_capacity (evictionPolicy c1) = Policy_capacity (evictionPolicy c)
      \<and> (1 \<le> Policy_capacity (evictionPolicy c)
           \<and> Policy_Size (evictionPolicy c) \<le> Policy_capacity (evictionPolicy c)
         \<longrightarrow> Policy_Size (evictionPolicy c1) \<le> Policy_capacity (evictionPolicy c))"
  proof (cases op)
    case (CallAdd obj)
    then show ?thesis using Add_spec [OF Cons.prems(1), of obj err c1] step by simp
  next
    case (CallDelete obj)
    then show ?thesis using Delete_spec [OF Cons.prems(1), of obj err c1] step by auto
  qed
  then show ?case using Cons.IH [of c1] rest by auto
qed

lemma Add_steps:
  assumes "evictionCache_Add obj c = Inr (None, c')"
  shows "\<exists>key s. keyFunc c obj = Inr key
           \<and> evictionPolicy c' = snd (Policy_Put key (evictionPolicy c))
           \<and> (if snd (fst (Policy_Put key (evictionPolicy c)))
               then threadSafeMap_Delete (fst (fst (Policy_Put key (evictionPolicy c)))) (store c)
               else Inr (store c)) = Inr s
           \<and> threadSafeMap_Add key obj s = Inr (store c')"
proof (cases "keyFunc c obj")
  case (Inl e)
  then show ?thesis using assms by (simp add: evictionCache_Add_def)
next
  case (Inr key)
  obtain ek ev p' where put: "Policy_Put key (evictionPolicy c) = ((ek, ev), p')"
    by (metis surj_pair)
  obtain s1 where s1: "(if ev then threadSafeMap_Delete ek (store c) else Inr (store c)) = Inr s1"
    using assms Inr put by (auto simp: evictionCache_Add_def split: sum.splits)
  obtain s2 where s2: "threadSafeMap_Add key obj s1 = Inr s2"
    and c': "c' = c\<lparr>store := s2, evictionPolicy := p'\<rparr>"
    using assms Inr put s1 by (auto simp: evictionCache_Add_def split: sum.splits)
  show ?thesis using Inr put s1 s2 c' by auto
qed



lemma lfuAfterPuts_reached:
  "snd (LFU_Put 2 (snd (LFU_Put 2 (snd (LFU_Put 2 (snd (LFU_Put 1 (NewLFU 2)))))))) = lfuAfterPuts"
  unfolding lfuAfterPuts_def by code_simp


lemma emptyPolicy_New:
  "emptyPolicy (FIFOPolicy (NewFIFO cap))" "emptyPolicy (LRUPolicy (NewLRU cap))"
  "emptyPolicy (LFUPolicy (NewLFU cap))"
  by (simp_all add: emptyPolicy_def NewFIFO_def NewLRU_def NewLFU_def)

lemma taggedStore_reached: "applyOps [OpAdd 1 (Some [7])] tagStore = Inr taggedStore"
  by (simp add: tagStore_def taggedStore_def NewThreadSafeStore_def threadSafeMap_Add_def
      threadSafeMap_Update_def updateIndices_def updateSingleIndex_def indexValuesOf_def
      tagsIndexFunc_def)

lemma fullFIFOCache_reached:
  "applyCacheOps [CallAdd (Some 1)] (NewEvictionCache intKeyFunc (FIFOPolicy (NewFIFO 1)) [])
     = Inr fullFIFOCache"
  by (simp add: fullFIFOCache_def NewEvictionCache_def NewThreadSafeStore_def NewFIFO_def
      evictionCache_Add_def intKeyFunc_def FIFO_Put_def threadSafeMap_Add_def
      threadSafeMap_Update_def updateIndices_def)

lemma Policy_Evict_inv:
  assumes "Policy_inv p"
  shows "Policy_inv (snd (Policy_Evict p))"
proof (cases p)
  case (FIFOPolicy f)
  then have i: "FIFO_inv f" using assms by simp
  show ?thesis
  proof (cases "fifo_list f = []")
    case True
    then show ?thesis using FIFOPolicy i by (simp add: FIFO_Evict_def FIFO_evict_empty)
  next
    case False
    obtain f' where "FIFO_evict f = ((hd (fifo_list f), True), f')" "FIFO_inv f'"
      using FIFO_evict_nonempty [OF i False] by blast
    then show ?thesis using FIFOPolicy by (simp add: FIFO_Evict_def)
  qed
next
  case (LRUPolicy l)
  then have i: "lru_inv l" using assms by simp
  show ?thesis
  proof (cases "lru_list l = []")
    case True
    then show ?thesis using LRUPolicy i by (simp add: lru_Evict_def lru_evict_empty)
  next
    case False
    obtain l' where "lru_evict l = ((last (lru_list l), True), l')" "lru_inv l'"
      using lru_evict_nonempty [OF i False] by blast
    then show ?thesis using LRUPolicy by (simp add: lru_Evict_def)
  qed
next
  case (LFUPolicy l)
  then have i: "LFU_inv l" using assms by simp
  show ?thesis
  proof (cases "freqHeap l = []")
    case True
    then show ?thesis using LFUPolicy i by (simp add: LFU_Evict_def LFU_evict_empty)
  next
    case False
    obtain l' where "LFU_evict l = ((entryKey (freqHeap l ! 0), True), l')" "LFU_inv l'"
      using LFU_evict_nonempty [OF i False] by blast
    then show ?thesis using LFUPolicy by (simp add: LFU_Evict_def)
  qed
qed

lemma policy_reachable_inv: "policy_reachable p \<Longrightarrow> Policy_inv p"
proof (induction p rule: policy_reachable.induct)
  case (reach_New p)
  then show ?case by (simp add: emptyPolicy_inv)
next
  case (reach_Put p key)
  obtain ek ev p' where put: "Policy_Put key p = ((ek, ev), p')" by (metis surj_pair)
  have "Policy_inv p'" using Policy_Put_spec [OF reach_Put.IH put] by blast
  then show ?case using put by simp
next
  case (reach_Delete p key)
  then show ?case by (simp add: Policy_Delete_spec)
next
  case (reach_Evict p)
  show ?case using reach_Evict.IH by (rule Policy_Evict_inv)
next
  case (reach_Reset p)
  then show ?case by (simp add: Policy_Reset_spec)
qed

section \<open>The claims about the policies\<close>



text \<open>
  C10. For FIFO, lru and LFU alike: \<^verbatim>\<open>Evict\<close> on a well-formed policy of size \<open>0\<close>
  returns the zero key and \<open>False\<close> and leaves the policy as it was, of size \<open>0\<close>.
\<close>

theorem evict_on_empty_policy:
  assumes "Policy_inv p" and "Policy_Size p = 0"
  shows "Policy_Evict p = ((0, False), p) \<and> Policy_Size (snd (Policy_Evict p)) = 0"
proof -
  have "Policy_keys p = {}"
    using assms Policy_keys_finite [of p] by (simp add: Policy_Size_card)
  then show ?thesis using Policy_Evict_empty [OF assms(1)] assms(2) by simp
qed

theorem evict_on_empty_policy_witness:
  "Policy_inv (LRUPolicy (NewLRU 2) :: int Policy)
   \<and> Policy_Size (LRUPolicy (NewLRU 2) :: int Policy) = 0
   \<and> Policy_Evict (LRUPolicy (NewLRU 2) :: int Policy) = ((0, False), LRUPolicy (NewLRU 2))
   \<and> Policy_inv (LFUPolicy (LFU_Reset lfuAfterPuts))
   \<and> Policy_Size (LFUPolicy (LFU_Reset lfuAfterPuts)) = 0
   \<and> Policy_Evict (LFUPolicy (LFU_Reset lfuAfterPuts))
       = ((0, False), LFUPolicy (LFU_Reset lfuAfterPuts))
   \<and> Policy_inv (FIFOPolicy (NewFIFO 0) :: int Policy)
   \<and> Policy_Size (FIFOPolicy (NewFIFO 0) :: int Policy) = 0
   \<and> Policy_Evict (FIFOPolicy (NewFIFO 0) :: int Policy) = ((0, False), FIFOPolicy (NewFIFO 0))"
proof -
  have i1: "Policy_inv (LRUPolicy (NewLRU 2) :: int Policy)" by (simp add: lru_inv_New)
  have s1: "Policy_Size (LRUPolicy (NewLRU 2) :: int Policy) = 0"
    by (simp add: lru_Size_def NewLRU_def)
  have i2: "Policy_inv (LFUPolicy (LFU_Reset lfuAfterPuts))"
    using Policy_Reset_spec [of "LFUPolicy lfuAfterPuts"] by simp
  have s2: "Policy_Size (LFUPolicy (LFU_Reset lfuAfterPuts)) = 0"
    by (simp add: LFU_Size_def LFU_Reset_def)
  have i3: "Policy_inv (FIFOPolicy (NewFIFO 0) :: int Policy)" by (simp add: FIFO_inv_New)
  have s3: "Policy_Size (FIFOPolicy (NewFIFO 0) :: int Policy) = 0"
    by (simp add: FIFO_Size_def NewFIFO_def)
  show ?thesis
    using evict_on_empty_policy [OF i1 s1] evict_on_empty_policy [OF i2 s2]
      evict_on_empty_policy [OF i3 s3] i1 s1 i2 s2 i3 s3
    by simp
qed



section \<open>The claims about the facade\<close>

text \<open>
  C3. A successful \<^verbatim>\<open>Add\<close> on the eviction-backed facade derives the key, calls
  \<^verbatim>\<open>Put\<close> on the policy, deletes the key that \<^verbatim>\<open>Put\<close> reports as evicted (if any)
  from the store, and only then adds the object to the store. Consequently, from a
  facade built over an empty policy, after every sequence of \<^verbatim>\<open>Add\<close> and \<^verbatim>\<open>Delete\<close>
  calls that does not panic, the size of the store is the size of the policy.
\<close>

theorem store_size_equals_policy_size:
  "(evictionCache_Add obj c0 = Inr (None, c1) \<longrightarrow>
      (\<exists>key s. keyFunc c0 obj = Inr key
         \<and> evictionPolicy c1 = snd (Policy_Put key (evictionPolicy c0))
         \<and> (if snd (fst (Policy_Put key (evictionPolicy c0)))
             then threadSafeMap_Delete (fst (fst (Policy_Put key (evictionPolicy c0)))) (store c0)
             else Inr (store c0)) = Inr s
         \<and> threadSafeMap_Add key obj s = Inr (store c1)))
   \<and> (emptyPolicy policy \<and> applyCacheOps ops (NewEvictionCache kf policy ixrs) = Inr c \<longrightarrow>
        threadSafeMap_Size (store c) = Policy_Size (evictionPolicy c))"
  using Add_steps [of obj c0 c1] cache_inv_New [of policy kf ixrs]
    applyCacheOps_inv [of "NewEvictionCache kf policy ixrs" ops c] cache_inv_size [of c]
  by blast

theorem store_size_equals_policy_size_witness:
  "emptyPolicy (LFUPolicy (NewLFU 2) :: int Policy)
   \<and> (\<exists>c. applyCacheOps [CallAdd (Some 1), CallAdd (Some 2), CallAdd (Some 3), CallDelete (Some 2),
                           CallAdd None]
            (NewEvictionCache intKeyFunc (LFUPolicy (NewLFU 2)) [] :: (int, int, int) evictionCache)
          = Inr c
        \<and> threadSafeMap_Size (store c) = Policy_Size (evictionPolicy c)
        \<and> map fst (items (store c)) = [3])
   \<and> (\<exists>c1. evictionCache_Add (Some 2) fullFIFOCache = Inr (None, c1)
        \<and> keyFunc fullFIFOCache (Some 2) = Inr 2
        \<and> fst (Policy_Put 2 (evictionPolicy fullFIFOCache)) = (1, True)
        \<and> evictionPolicy c1 = snd (Policy_Put 2 (evictionPolicy fullFIFOCache))
        \<and> map fst (items (store c1)) = [2])"
proof -
  let ?ops = "[CallAdd (Some 1), CallAdd (Some 2), CallAdd (Some 3), CallDelete (Some 2),
               CallAdd None]"
  let ?c0 = "NewEvictionCache intKeyFunc (LFUPolicy (NewLFU 2)) [] :: (int, int, int) evictionCache"
  have e: "emptyPolicy (LFUPolicy (NewLFU 2) :: int Policy)" by (rule emptyPolicy_New)
  have "case applyCacheOps ?ops ?c0 of Inl p \<Rightarrow> False
        | Inr c \<Rightarrow> map fst (items (store c)) = [3]"
    by code_simp
  then obtain c where c: "applyCacheOps ?ops ?c0 = Inr c" "map fst (items (store c)) = [3]"
    by (auto split: sum.splits)
  have s: "threadSafeMap_Size (store c) = Policy_Size (evictionPolicy c)"
    using store_size_equals_policy_size
      [where policy = "LFUPolicy (NewLFU 2)" and ops = ?ops and kf = intKeyFunc
         and ixrs = "[]" and c = c and obj = "Some 2" and ?c0.0 = fullFIFOCache and ?c1.0 = c]
      e c(1) by blast
  have "case evictionCache_Add (Some 2) fullFIFOCache of Inl p \<Rightarrow> False
        | Inr (err, c1) \<Rightarrow> err = None \<and> map fst (items (store c1)) = [2]"
    unfolding fullFIFOCache_def by code_simp
  then obtain c1 where c1: "evictionCache_Add (Some 2) fullFIFOCache = Inr (None, c1)"
    "map fst (items (store c1)) = [2]"
    by (auto split: sum.splits)
  have k: "keyFunc fullFIFOCache (Some 2) = Inr 2"
    by (simp add: fullFIFOCache_def intKeyFunc_def)
  have p: "fst (Policy_Put 2 (evictionPolicy fullFIFOCache)) = (1, True)"
    by (simp add: fullFIFOCache_def FIFO_Put_def FIFO_evict_def)
  have q: "evictionPolicy c1 = snd (Policy_Put 2 (evictionPolicy fullFIFOCache))"
    using store_size_equals_policy_size
      [where policy = "LFUPolicy (NewLFU 2)" and ops = ?ops and kf = intKeyFunc
         and ixrs = "[]" and c = c and obj = "Some 2" and ?c0.0 = fullFIFOCache and ?c1.0 = c1]
      c1(1) k by auto
  have A: "\<exists>c. applyCacheOps ?ops ?c0 = Inr c
        \<and> threadSafeMap_Size (store c) = Policy_Size (evictionPolicy c)
        \<and> map fst (items (store c)) = [3]"
    using c s by (intro exI [of _ c]) (simp only: simp_thms)
  have B: "\<exists>c1. evictionCache_Add (Some 2) fullFIFOCache = Inr (None, c1)
        \<and> keyFunc fullFIFOCache (Some 2) = Inr 2
        \<and> fst (Policy_Put 2 (evictionPolicy fullFIFOCache)) = (1, True)
        \<and> evictionPolicy c1 = snd (Policy_Put 2 (evictionPolicy fullFIFOCache))
        \<and> map fst (items (store c1)) = [2]"
    using c1 k p q by (intro exI [of _ c1]) (simp only: simp_thms)
  show ?thesis using e A B by (intro conjI)
qed



text \<open>
  C9. When the key function succeeds and \<^verbatim>\<open>Update(obj)\<close> on the facade returns, it
  returns no error, and the store's items are the old ones with the derived key
  mapped to \<open>obj\<close>: the key now gives \<open>obj\<close>, every other key gives what it gave
  before, and no key has left the store. This holds also when the key is new, the
  policy is full and \<^verbatim>\<open>Put\<close> reports an eviction: the witness is such a call, after
  which the key that the policy evicted is still in the store.
\<close>

theorem update_keeps_other_keys:
  assumes "keyFunc c obj = Inr key" and "evictionCache_Update obj c = Inr (err, c')"
  shows "err = None
       \<and> items (store c') = AList.update key obj (items (store c))
       \<and> threadSafeMap_Get key (store c') = (obj, True)
       \<and> (\<forall>k. k \<noteq> key \<longrightarrow> threadSafeMap_Get k (store c') = threadSafeMap_Get k (store c))
       \<and> fst ` set (items (store c)) \<subseteq> fst ` set (items (store c'))"
proof -
  obtain s where s: "threadSafeMap_Update key obj (store c) = Inr s"
    and c': "c' = c\<lparr>store := s, evictionPolicy := snd (Policy_Put key (evictionPolicy c))\<rparr>"
    and e: "err = None"
    using assms by (auto simp: evictionCache_Update_def split: sum.splits)
  have i: "items (store c') = AList.update key obj (items (store c))"
    using Update_items [OF s] by (simp add: c')
  then have m: "map_of (items (store c')) = (map_of (items (store c)))(key \<mapsto> obj)"
    by (simp add: update_conv')
  show ?thesis
    using e i m by (auto simp: threadSafeMap_Get_def keys_update)
qed

theorem update_keeps_other_keys_witness:
  "keyFunc fullFIFOCache (Some 2) = Inr 2
   \<and> fst (Policy_Put 2 (evictionPolicy fullFIFOCache)) = (1, True)
   \<and> evictionCache_Update (Some 2) fullFIFOCache = Inr (None, updatedFIFOCache)
   \<and> threadSafeMap_Get 1 (store updatedFIFOCache) = threadSafeMap_Get 1 (store fullFIFOCache)
   \<and> threadSafeMap_Get 1 (store fullFIFOCache) = (Some 1, True)
   \<and> Policy_keys (evictionPolicy updatedFIFOCache) = {2}"
proof -
  have k: "keyFunc fullFIFOCache (Some 2) = Inr 2"
    by (simp add: fullFIFOCache_def intKeyFunc_def)
  have p: "fst (Policy_Put 2 (evictionPolicy fullFIFOCache)) = (1, True)"
    by (simp add: fullFIFOCache_def FIFO_Put_def FIFO_evict_def)
  have u: "evictionCache_Update (Some 2) fullFIFOCache = Inr (None, updatedFIFOCache)"
    by (simp add: fullFIFOCache_def updatedFIFOCache_def evictionCache_Update_def intKeyFunc_def
        threadSafeMap_Update_def updateIndices_def FIFO_Put_def FIFO_evict_def)
  have g: "threadSafeMap_Get 1 (store fullFIFOCache) = (Some 1, True)"
    by (simp add: fullFIFOCache_def threadSafeMap_Get_def)
  have t: "Policy_keys (evictionPolicy updatedFIFOCache) = {2}"
    by (simp add: updatedFIFOCache_def)
  have "\<forall>k. k \<noteq> 2 \<longrightarrow>
      threadSafeMap_Get k (store updatedFIFOCache) = threadSafeMap_Get k (store fullFIFOCache)"
    using update_keeps_other_keys [OF k u] by blast
  then have "threadSafeMap_Get 1 (store updatedFIFOCache) = threadSafeMap_Get 1 (store fullFIFOCache)"
    by simp
  then show ?thesis using k p u g t by blast
qed

end
